theory Spec2Isabelle
  imports Complex_Main "HOL-Library.AList" "HOL-Library.Multiset"
begin

section \<open>Shadow caster: edge extraction and visibility rays (canvas.ts)\<close>

text \<open>
  A shallow embedding of \<^verbatim>\<open>src/canvas.ts\<close>. The closures of \<^verbatim>\<open>setupCanvas\<close>,
  \<^verbatim>\<open>createCells\<close> and \<^verbatim>\<open>createEdges\<close> share mutable variables; they are
  gathered in one record that every operation takes and returns. Grid coordinates and edge
  ids are integers. The numbers of the ray computation are modelled as exact reals: rounding
  is not modelled, but a division by zero yields a non-finite value as in JavaScript.
\<close>

subsection \<open>Constants and data\<close>

definition TILE_SIZE :: int where "TILE_SIZE = 16"
definition TILE_X_COUNT :: int where "TILE_X_COUNT = 20"
definition TILE_Y_COUNT :: int where "TILE_Y_COUNT = 20"

record edge =
  sx :: int
  sy :: int
  ex :: int
  ey :: int

text \<open>The indices \<^verbatim>\<open>NORTH = 0, EAST = 1, SOUTH = 2, WEST = 3\<close> of the two 4-tuples of a cell.\<close>

datatype side = NORTH | EAST | SOUTH | WEST

text \<open>The fields \<^verbatim>\<open>x\<close> and \<^verbatim>\<open>y\<close> of a cell are named \<open>cell_x\<close> and \<open>cell_y\<close>.\<close>

record cell =
  cell_x :: int
  cell_y :: int
  existEdges :: "side \<Rightarrow> bool"
  edgeIds :: "side \<Rightarrow> nat"

record ray =
  sx :: real
  sy :: real
  ex :: real
  ey :: real
  angle :: real

definition createCell :: "int \<Rightarrow> int \<Rightarrow> cell" where
  "createCell x y =
     \<lparr>cell_x = x, cell_y = y, existEdges = (\<lambda>_. False), edgeIds = (\<lambda>_. 0)\<rparr>"

text \<open>
  \<open>cells\<close> is the \<^verbatim>\<open>Map<number, Map<number, Cell>>\<close> of \<^verbatim>\<open>createCells\<close>; \<open>edges\<close> is the
  \<^verbatim>\<open>Map<number, Edge>\<close> of \<^verbatim>\<open>createEdges\<close>, kept in insertion order as a JavaScript
  Map does, and \<open>edgeId\<close> its counter; \<open>lightSource\<close> and \<open>rays\<close> are the variables of
  \<^verbatim>\<open>setupCanvas\<close>.
\<close>

record state =
  cells :: "int \<rightharpoonup> (int \<rightharpoonup> cell)"
  edges :: "(nat \<times> edge) list"
  edgeId :: nat
  lightSource :: "(real \<times> real) option"
  rays :: "ray list"

subsection \<open>The occupancy grid (createCells)\<close>

definition hasCell :: "state \<Rightarrow> int \<Rightarrow> int \<Rightarrow> bool" where
  "hasCell st x y = (case cells st x of None \<Rightarrow> False | Some ys \<Rightarrow> ys y \<noteq> None)"

definition getCell :: "state \<Rightarrow> int \<Rightarrow> int \<Rightarrow> cell option" where
  "getCell st x y = (case cells st x of None \<Rightarrow> None | Some ys \<Rightarrow> ys y)"

definition setCell :: "int \<Rightarrow> int \<Rightarrow> bool \<Rightarrow> state \<Rightarrow> state" where
  "setCell x y val st =
     (if val then
        (let ys = (case cells st x of None \<Rightarrow> Map.empty | Some ys \<Rightarrow> ys)
         in st\<lparr>cells := (cells st)(x \<mapsto> ys(y \<mapsto> createCell x y))\<rparr>)
      else
        (case cells st x of
           None \<Rightarrow> st
         | Some ys \<Rightarrow> st\<lparr>cells := (cells st)(x \<mapsto> ys(y := None))\<rparr>))"

text \<open>
  A cell is a shared mutable object that is reached through the grid only; an assignment to
  a field of the cell at \<open>(x, y)\<close> is a write to the grid at that key.
\<close>

definition modCell :: "int \<Rightarrow> int \<Rightarrow> (cell \<Rightarrow> cell) \<Rightarrow> state \<Rightarrow> state" where
  "modCell x y f st =
     (case cells st x of
        None \<Rightarrow> st
      | Some ys \<Rightarrow>
          (case ys y of
             None \<Rightarrow> st
           | Some c \<Rightarrow> st\<lparr>cells := (cells st)(x \<mapsto> ys(y \<mapsto> f c))\<rparr>))"

subsection \<open>The edge table (createEdges)\<close>

definition getEdge :: "state \<Rightarrow> nat \<Rightarrow> edge option" where
  "getEdge st i = map_of (edges st) i"

definition addEdge :: "edge \<Rightarrow> state \<Rightarrow> nat \<times> state" where
  "addEdge e st =
     (let i = edgeId st
      in (i, st\<lparr>edgeId := i + 1, edges := AList.update i e (edges st)\<rparr>))"

definition getAllEdges :: "state \<Rightarrow> edge list" where
  "getAllEdges st = map snd (edges st)"

definition clearEdges :: "state \<Rightarrow> state" where
  "clearEdges st = st\<lparr>edges := [], edgeId := 1\<rparr>"

subsection \<open>Edge extraction (computeEdges)\<close>

text \<open>
  The body of the scan has one block per side; the four blocks differ in the neighbour that
  is tested, the neighbour whose edge is reused, the new unit edge and the coordinate that
  is extended. These four are tabulated, in the order of the source.
\<close>

fun across :: "side \<Rightarrow> int \<Rightarrow> int \<Rightarrow> int \<times> int" where
  "across NORTH x y = (x, y - 1)"
| "across EAST x y = (x + 1, y)"
| "across SOUTH x y = (x, y + 1)"
| "across WEST x y = (x - 1, y)"

fun extending :: "side \<Rightarrow> int \<Rightarrow> int \<Rightarrow> int \<times> int" where
  "extending NORTH x y = (x - 1, y)"
| "extending EAST x y = (x, y - 1)"
| "extending SOUTH x y = (x - 1, y)"
| "extending WEST x y = (x, y - 1)"

fun unitEdge :: "side \<Rightarrow> int \<Rightarrow> int \<Rightarrow> edge" where
  "unitEdge NORTH x y = \<lparr>edge.sx = x, sy = y, ex = x + 1, ey = y\<rparr>"
| "unitEdge EAST x y = \<lparr>edge.sx = x + 1, sy = y, ex = x + 1, ey = y + 1\<rparr>"
| "unitEdge SOUTH x y = \<lparr>edge.sx = x, sy = y + 1, ex = x + 1, ey = y + 1\<rparr>"
| "unitEdge WEST x y = \<lparr>edge.sx = x, sy = y, ex = x, ey = y + 1\<rparr>"

fun growEdge :: "side \<Rightarrow> int \<Rightarrow> int \<Rightarrow> edge \<Rightarrow> edge" where
  "growEdge NORTH x y e = e\<lparr>edge.ex := x + 1\<rparr>"
| "growEdge EAST x y e = e\<lparr>edge.ey := y + 1\<rparr>"
| "growEdge SOUTH x y e = e\<lparr>edge.ex := x + 1\<rparr>"
| "growEdge WEST x y e = e\<lparr>edge.ey := y + 1\<rparr>"

definition newEdge :: "side \<Rightarrow> int \<Rightarrow> int \<Rightarrow> state \<Rightarrow> state" where
  "newEdge d x y st =
     (let (i, st') = addEdge (unitEdge d x y) st
      in modCell x y (\<lambda>c. c\<lparr>edgeIds := (edgeIds c)(d := i)\<rparr>) st')"

text \<open>
  One ``check ... edge'' block. \<^verbatim>\<open>getEdge(edgeId)!\<close> is unchecked: when the table has no
  such edge, the assignment to the field of \<^verbatim>\<open>undefined\<close> throws a TypeError, which is the
  result \<open>None\<close>.
\<close>

definition checkSide :: "side \<Rightarrow> int \<Rightarrow> int \<Rightarrow> state \<Rightarrow> state option" where
  "checkSide d x y st =
     (if hasCell st (fst (across d x y)) (snd (across d x y)) then
        Some (modCell x y
          (\<lambda>c. c\<lparr>existEdges := (existEdges c)(d := False), edgeIds := (edgeIds c)(d := 0)\<rparr>) st)
      else
        (let st1 = modCell x y (\<lambda>c. c\<lparr>existEdges := (existEdges c)(d := True)\<rparr>) st
         in case getCell st1 (fst (extending d x y)) (snd (extending d x y)) of
              None \<Rightarrow> Some (newEdge d x y st1)
            | Some nCell \<Rightarrow>
                if existEdges nCell d then
                  (let i = edgeIds nCell d
                   in case getEdge st1 i of
                        None \<Rightarrow> None
                      | Some e \<Rightarrow>
                          Some ((modCell x y (\<lambda>c. c\<lparr>edgeIds := (edgeIds c)(d := i)\<rparr>) st1)
                                  \<lparr>edges := AList.update i (growEdge d x y e) (edges st1)\<rparr>))
                else Some (newEdge d x y st1)))"

definition computeCell :: "int \<Rightarrow> int \<Rightarrow> state \<Rightarrow> state option" where
  "computeCell x y st =
     (case getCell st x y of
        None \<Rightarrow> Some st
      | Some _ \<Rightarrow>
          Option.bind (Option.bind (Option.bind (checkSide NORTH x y st)
            (checkSide EAST x y)) (checkSide SOUTH x y)) (checkSide WEST x y))"

text \<open>A \<^verbatim>\<open>for\<close> loop over a list of index values, stopping at the first exception.\<close>

fun forEach :: "('a \<Rightarrow> 's \<Rightarrow> 's option) \<Rightarrow> 'a list \<Rightarrow> 's \<Rightarrow> 's option" where
  "forEach f [] st = Some st"
| "forEach f (a # as) st = (case f a st of None \<Rightarrow> None | Some st' \<Rightarrow> forEach f as st')"

definition computeEdges :: "state \<Rightarrow> state option" where
  "computeEdges st =
     forEach (\<lambda>x. forEach (\<lambda>y. computeCell x y) [0..TILE_Y_COUNT - 1])
       [0..TILE_X_COUNT - 1] (clearEdges st)"

subsection \<open>Segment intersection (lineIntersect)\<close>

text \<open>
  The result of a JavaScript division: finite, or one of the three non-finite values. With a
  zero divisor the sign of an infinite quotient also depends on the sign of the zero, which
  exact reals do not have; the range test below fails for every non-finite value.
\<close>

datatype jsnum = Fin real | PInf | NInf | NaN

definition js_div :: "real \<Rightarrow> real \<Rightarrow> jsnum" where
  "js_div a b =
     (if b \<noteq> 0 then Fin (a / b) else if a = 0 then NaN else if 0 < a then PInf else NInf)"

fun js_ge :: "jsnum \<Rightarrow> real \<Rightarrow> bool" where
  "js_ge (Fin a) b = (b \<le> a)"
| "js_ge PInf b = True"
| "js_ge NInf b = False"
| "js_ge NaN b = False"

fun js_le :: "jsnum \<Rightarrow> real \<Rightarrow> bool" where
  "js_le (Fin a) b = (a \<le> b)"
| "js_le PInf b = False"
| "js_le NInf b = True"
| "js_le NaN b = False"

text \<open>The returned object \<^verbatim>\<open>{ x: i_x, y: i_y }\<close> is a pair; \<^verbatim>\<open>null\<close> is \<open>None\<close>.\<close>

definition lineIntersect ::
  "real \<Rightarrow> real \<Rightarrow> real \<Rightarrow> real \<Rightarrow> real \<Rightarrow> real \<Rightarrow> real \<Rightarrow> real \<Rightarrow> (real \<times> real) option" where
  "lineIntersect x0 y0 x1 y1 x2 y2 x3 y3 =
     (let sx1 = x1 - x0; sy1 = y1 - y0; sx2 = x3 - x2; sy2 = y3 - y2;
          s = js_div (- sy1 * (x0 - x2) + sx1 * (y0 - y2)) (- sx2 * sy1 + sx1 * sy2);
          t = js_div (sx2 * (y0 - y2) - sy2 * (x0 - x2)) (- sx2 * sy1 + sx1 * sy2)
      in if js_ge s 0 \<and> js_le s 1 \<and> js_ge t 0 \<and> js_le t 1 then
           (case t of
              Fin tv \<Rightarrow> Some (x0 + tv * sx1, y0 + tv * sy1)
            | _ \<Rightarrow> None)
         else None)"

subsection \<open>Visibility rays (getRaysToEdges)\<close>

text \<open>
  The conversion of an integral number to a string, as the template literal of the key of
  an endpoint does it: decimal digits, with a minus sign for a negative number.
\<close>

definition digit_char :: "nat \<Rightarrow> char" where
  "digit_char n = char_of (48 + n)"

fun digits :: "nat \<Rightarrow> string" where
  "digits n = (if n < 10 then [digit_char n] else digits (n div 10) @ [digit_char (n mod 10)])"

definition string_of_int :: "int \<Rightarrow> string" where
  "string_of_int i = (if i < 0 then CHR ''-'' # digits (nat (- i)) else digits (nat i))"

definition rayKey :: "int \<Rightarrow> int \<Rightarrow> string" where
  "rayKey x y = string_of_int x @ '','' @ string_of_int y"

text \<open>\<^verbatim>\<open>Math.atan2(y, x)\<close> on reals: the angle of the point \<open>(x, y)\<close> in \<open>(-\<pi>, \<pi>]\<close>, and 0 at the origin.\<close>

definition atan2 :: "real \<Rightarrow> real \<Rightarrow> real" where
  "atan2 y x =
     (if 0 < x then arctan (y / x)
      else if x < 0 then (if 0 \<le> y then arctan (y / x) + pi else arctan (y / x) - pi)
      else if 0 < y then pi / 2
      else if y < 0 then - pi / 2
      else 0)"

text \<open>The inner loop \<^verbatim>\<open>for (let i = 0; i < 3; i++)\<close>: the three rays of one endpoint.\<close>

definition mkRay :: "real \<Rightarrow> real \<Rightarrow> real \<Rightarrow> int \<Rightarrow> ray" where
  "mkRay lx ly baseAng i =
     (let ang = baseAng + (real_of_int i - 1) * 0.0001;
          x = lx + cos ang * real_of_int TILE_X_COUNT * real_of_int TILE_SIZE * 1.5;
          y = ly + sin ang * real_of_int TILE_Y_COUNT * real_of_int TILE_SIZE * 1.5
      in \<lparr>ray.sx = lx, sy = ly, ex = x, ey = y, angle = ang\<rparr>)"

definition endpointRays :: "real \<Rightarrow> real \<Rightarrow> int \<times> int \<Rightarrow> ray list" where
  "endpointRays lx ly p =
     (let baseAng = atan2 (real_of_int (snd p) - ly) (real_of_int (fst p) - lx)
      in map (mkRay lx ly baseAng) [0, 1, 2])"

text \<open>One endpoint of an edge: skipped when its key was visited, else recorded and cast.\<close>

definition visitPoint ::
  "real \<Rightarrow> real \<Rightarrow> int \<times> int \<Rightarrow> string set \<times> ray list \<Rightarrow> string set \<times> ray list" where
  "visitPoint lx ly p acc =
     (let rk = rayKey (fst p) (snd p)
      in if rk \<in> fst acc then acc
         else (insert rk (fst acc), snd acc @ endpointRays lx ly p))"

text \<open>The two endpoints of an edge in world units, in the order \<^verbatim>\<open>i = 0, 1\<close>.\<close>

definition edgePoints :: "edge \<Rightarrow> (int \<times> int) list" where
  "edgePoints e =
     [(edge.sx e * TILE_SIZE, edge.sy e * TILE_SIZE), (edge.ex e * TILE_SIZE, edge.ey e * TILE_SIZE)]"

definition castRays :: "real \<Rightarrow> real \<Rightarrow> edge list \<Rightarrow> ray list" where
  "castRays lx ly es =
     snd (fold (\<lambda>e acc. fold (visitPoint lx ly) (edgePoints e) acc) es ({}, []))"

text \<open>The body of the clipping loop for one ray and one edge.\<close>

definition edgeHit :: "ray \<Rightarrow> edge \<Rightarrow> (real \<times> real) option" where
  "edgeHit r e =
     lineIntersect (ray.sx r) (ray.sy r) (ray.ex r) (ray.ey r)
       (real_of_int (edge.sx e * TILE_SIZE)) (real_of_int (edge.sy e * TILE_SIZE))
       (real_of_int (edge.ex e * TILE_SIZE)) (real_of_int (edge.ey e * TILE_SIZE))"

definition clipStep :: "real \<Rightarrow> real \<Rightarrow> edge \<Rightarrow> ray \<Rightarrow> ray" where
  "clipStep lx ly e r =
     (case edgeHit r e of
        None \<Rightarrow> r
      | Some (ix, iy) \<Rightarrow>
          (let dist = (ix - lx)\<^sup>2 + (iy - ly)\<^sup>2;
               rayLen = (ray.ex r - lx)\<^sup>2 + (ray.ey r - ly)\<^sup>2
           in if dist < rayLen then r\<lparr>ray.ex := ix, ray.ey := iy\<rparr> else r))"

definition clipRay :: "real \<Rightarrow> real \<Rightarrow> edge list \<Rightarrow> ray \<Rightarrow> ray" where
  "clipRay lx ly es r = fold (clipStep lx ly) es r"

text \<open>
  \<^verbatim>\<open>rays.sort((a, b) => a.angle - b.angle)\<close> is a stable sort by the field \<open>angle\<close>.
\<close>

definition getRaysToEdges :: "state \<Rightarrow> state" where
  "getRaysToEdges st =
     (let st0 = st\<lparr>rays := []\<rparr>
      in case lightSource st0 of
           None \<Rightarrow> st0
         | Some (lx, ly) \<Rightarrow>
             (let es = getAllEdges st0;
                  rs = castRays lx ly es
              in st0\<lparr>rays := sort_key ray.angle (map (clipRay lx ly es) rs)\<rparr>))"

subsection \<open>Notions used in the statements\<close>

text \<open>The points of a list in the order of their first occurrence, without those in \<open>seen\<close>.\<close>

fun dedupFrom :: "'a set \<Rightarrow> 'a list \<Rightarrow> 'a list" where
  "dedupFrom seen [] = []"
| "dedupFrom seen (p # ps) =
     (if p \<in> seen then dedupFrom seen ps else p # dedupFrom (insert p seen) ps)"






subsection \<open>Notions used in the statements about the scan\<close>

text \<open>The values of the variables when \<^verbatim>\<open>setupCanvas\<close> starts: no cell, no edge, no light.\<close>

definition emptyState :: state where
  "emptyState = \<lparr>cells = Map.empty, edges = [], edgeId = 1, lightSource = None, rays = []\<rparr>"

text \<open>The rectangle of positions that the scan of \<^verbatim>\<open>computeEdges\<close> visits.\<close>

definition inExtent :: "int \<times> int \<Rightarrow> bool" where
  "inExtent p \<longleftrightarrow> 0 \<le> fst p \<and> fst p < TILE_X_COUNT \<and> 0 \<le> snd p \<and> snd p < TILE_Y_COUNT"

text \<open>The two assignments of a side block to the entries of side \<open>d\<close> of a cell.\<close>

definition setSide :: "side \<Rightarrow> bool \<Rightarrow> nat \<Rightarrow> cell \<Rightarrow> cell" where
  "setSide d B I c = c\<lparr>existEdges := (existEdges c)(d := B), edgeIds := (edgeIds c)(d := I)\<rparr>"

text \<open>
  A grid the program can have: a cell outside the scanned rectangle is never written after
  \<^verbatim>\<open>createCell\<close>, so none of its sides is flagged.
\<close>

definition gridOK :: "state \<Rightarrow> bool" where
  "gridOK st \<longleftrightarrow> (\<forall>a b c d. getCell st a b = Some c \<and> \<not> inExtent (a, b) \<longrightarrow> \<not> existEdges c d)"

text \<open>
  The states that the event handlers of \<^verbatim>\<open>setupCanvas\<close> produce: they set or remove cells,
  recompute the edges, move or drop the light and recompute the rays.
\<close>

inductive reachable :: "state \<Rightarrow> bool" where
  start: "reachable emptyState"
| cell: "reachable st \<Longrightarrow> reachable (setCell x y v st)"
| recompute: "reachable st \<Longrightarrow> computeEdges st = Some st' \<Longrightarrow> reachable st'"
| light: "reachable st \<Longrightarrow> reachable (st\<lparr>lightSource := l\<rparr>)"
| cast: "reachable st \<Longrightarrow> reachable (getRaysToEdges st)"

text \<open>
  The sides processed before side set \<open>ds\<close> of position \<open>(x, y)\<close> is done, in scan order (\<open>x\<close>
  outer, \<open>y\<close> inner), and the relation between two states that agree on what a scan reads.
\<close>

definition scanned :: "(int \<times> int \<Rightarrow> bool) \<Rightarrow> int \<Rightarrow> int \<Rightarrow> side set \<Rightarrow> ((int \<times> int) \<times> side) set" where
  "scanned occ x y ds =
     {(p, d). inExtent p \<and> occ p \<and>
        (fst p < x \<or> (fst p = x \<and> snd p < y) \<or> (p = (x, y) \<and> d \<in> ds))}"

definition sameView ::
  "(int \<times> int \<Rightarrow> bool) \<Rightarrow> ((int \<times> int) \<times> side) set \<Rightarrow> state \<Rightarrow> state \<Rightarrow> bool" where
  "sameView occ Q s1 s2 \<longleftrightarrow>
     edges s1 = edges s2 \<and> edgeId s1 = edgeId s2 \<and>
     (\<forall>a b. hasCell s1 a b = occ (a, b)) \<and> (\<forall>a b. hasCell s2 a b = occ (a, b)) \<and>
     (\<forall>a b c1 c2 d. getCell s1 a b = Some c1 \<and> getCell s2 a b = Some c2 \<and>
        (((a, b), d) \<in> Q \<or> \<not> inExtent (a, b)) \<longrightarrow>
        existEdges c1 d = existEdges c2 d \<and> edgeIds c1 d = edgeIds c2 d)"

text \<open>
  Coordinates along and across the line of a side, the segment of a run of sides on that
  line, and the invariant of the scan: every processed boundary side belongs to a run of
  processed boundary sides that share one edge, which spans exactly the run.
\<close>

fun along :: "side \<Rightarrow> int \<times> int \<Rightarrow> int" where
  "along NORTH p = fst p"
| "along EAST p = snd p"
| "along SOUTH p = fst p"
| "along WEST p = snd p"

fun crossc :: "side \<Rightarrow> int \<times> int \<Rightarrow> int" where
  "crossc NORTH p = snd p"
| "crossc EAST p = fst p"
| "crossc SOUTH p = snd p"
| "crossc WEST p = fst p"

fun mkPos :: "side \<Rightarrow> int \<Rightarrow> int \<Rightarrow> int \<times> int" where
  "mkPos NORTH u v = (u, v)"
| "mkPos EAST u v = (v, u)"
| "mkPos SOUTH u v = (u, v)"
| "mkPos WEST u v = (v, u)"

fun lineEdge :: "side \<Rightarrow> int \<Rightarrow> int \<Rightarrow> int \<Rightarrow> edge" where
  "lineEdge NORTH v lo hi = \<lparr>edge.sx = lo, sy = v, ex = hi, ey = v\<rparr>"
| "lineEdge EAST v lo hi = \<lparr>edge.sx = v + 1, sy = lo, ex = v + 1, ey = hi\<rparr>"
| "lineEdge SOUTH v lo hi = \<lparr>edge.sx = lo, sy = v + 1, ex = hi, ey = v + 1\<rparr>"
| "lineEdge WEST v lo hi = \<lparr>edge.sx = v, sy = lo, ex = v, ey = hi\<rparr>"

abbreviation cellAt :: "state \<Rightarrow> int \<times> int \<Rightarrow> cell option" where
  "cellAt st p \<equiv> getCell st (fst p) (snd p)"

definition boundary :: "(int \<times> int \<Rightarrow> bool) \<Rightarrow> side \<Rightarrow> int \<times> int \<Rightarrow> bool" where
  "boundary occ d p \<longleftrightarrow> inExtent p \<and> occ p \<and> \<not> occ (across d (fst p) (snd p))"

definition runOK ::
  "(int \<times> int \<Rightarrow> bool) \<Rightarrow> ((int \<times> int) \<times> side) set \<Rightarrow> state \<Rightarrow> side \<Rightarrow> int \<Rightarrow> nat \<Rightarrow> int \<Rightarrow> int \<Rightarrow> bool" where
  "runOK occ Q st d v i lo hi \<longleftrightarrow>
     getEdge st i = Some (lineEdge d v lo hi) \<and> lo < hi \<and>
     (\<forall>u. lo \<le> u \<and> u < hi \<longrightarrow>
        (mkPos d u v, d) \<in> Q \<and> boundary occ d (mkPos d u v) \<and>
        (\<exists>c. cellAt st (mkPos d u v) = Some c \<and> edgeIds c d = i)) \<and>
     \<not> boundary occ d (mkPos d (lo - 1) v)"

definition sideOK ::
  "(int \<times> int \<Rightarrow> bool) \<Rightarrow> ((int \<times> int) \<times> side) set \<Rightarrow> state \<Rightarrow> int \<times> int \<Rightarrow> side \<Rightarrow> bool" where
  "sideOK occ Q st p d \<longleftrightarrow>
     (\<exists>c. cellAt st p = Some c \<and> existEdges c d = boundary occ d p \<and>
        (if boundary occ d p
         then \<exists>lo hi. runOK occ Q st d (crossc d p) (edgeIds c d) lo hi \<and>
                lo \<le> along d p \<and> along d p < hi
         else edgeIds c d = 0))"

definition scanInv :: "(int \<times> int \<Rightarrow> bool) \<Rightarrow> ((int \<times> int) \<times> side) set \<Rightarrow> state \<Rightarrow> bool" where
  "scanInv occ Q st \<longleftrightarrow>
     (\<forall>a b. hasCell st a b = occ (a, b)) \<and>
     distinct (map fst (edges st)) \<and> 0 < edgeId st \<and>
     (\<forall>i e. getEdge st i = Some e \<longrightarrow>
        0 < i \<and> i < edgeId st \<and> (\<exists>d v lo hi. lo < hi \<and> e = lineEdge d v lo hi)) \<and>
     (\<forall>a b c d. getCell st a b = Some c \<and> \<not> inExtent (a, b) \<longrightarrow> \<not> existEdges c d) \<and>
     (\<forall>(p, d)\<in>Q. inExtent p \<and> occ p \<and> sideOK occ Q st p d)"

section \<open>Segment intersection\<close>

text \<open>Every comparison of the range test fails on a non-finite quotient.\<close>

lemma js_range_Fin:
  "js_ge v 0 \<and> js_le v 1 \<longleftrightarrow> (\<exists>a. v = Fin a \<and> 0 \<le> a \<and> a \<le> 1)"
  by (cases v) auto









section \<open>Visibility without a light source\<close>

text \<open>
  Claim C8. Whatever the edges (and the rest of the state), when the light source is absent
  \<open>getRaysToEdges\<close> only empties the stored ray list: the result has no ray, and no branch of
  the computation can fail.
\<close>

theorem getRaysToEdges_no_light:
  "lightSource st = None \<Longrightarrow> getRaysToEdges st = st\<lparr>rays := []\<rparr> \<and> rays (getRaysToEdges st) = []"
  by (simp add: getRaysToEdges_def)

theorem getRaysToEdges_no_light_witness:
  "lightSource \<lparr>cells = Map.empty, edges = [(1, \<lparr>edge.sx = 0, sy = 0, ex = 1, ey = 0\<rparr>)],
       edgeId = 2, lightSource = None,
       rays = [\<lparr>ray.sx = 0, sy = 0, ex = 1, ey = 1, angle = 0\<rparr>]\<rparr> = None \<and>
   rays (getRaysToEdges \<lparr>cells = Map.empty, edges = [(1, \<lparr>edge.sx = 0, sy = 0, ex = 1, ey = 0\<rparr>)],
       edgeId = 2, lightSource = None,
       rays = [\<lparr>ray.sx = 0, sy = 0, ex = 1, ey = 1, angle = 0\<rparr>]\<rparr>) = []"
  using getRaysToEdges_no_light
    [of "\<lparr>cells = Map.empty, edges = [(1, \<lparr>edge.sx = 0, sy = 0, ex = 1, ey = 0\<rparr>)],
       edgeId = 2, lightSource = None,
       rays = [\<lparr>ray.sx = 0, sy = 0, ex = 1, ey = 1, angle = 0\<rparr>]\<rparr>"]
  by simp

section \<open>The key of an endpoint determines its coordinates\<close>

lemma of_char_digit_char: "n < 10 \<Longrightarrow> (of_char (digit_char n) :: nat) = 48 + n"
  by (simp add: digit_char_def)

lemma digit_char_inj:
  assumes "n < 10" "m < 10" "digit_char n = digit_char m"
  shows "n = m"
proof -
  have "48 + n = (of_char (digit_char n) :: nat)"
    using assms(1) by (simp add: of_char_digit_char)
  also have "\<dots> = of_char (digit_char m)"
    using assms(3) by simp
  also have "\<dots> = 48 + m"
    using assms(2) by (simp add: of_char_digit_char)
  finally show ?thesis by simp
qed

lemma digit_char_not_sep:
  assumes "n < 10"
  shows "digit_char n \<noteq> CHR '',''" and "digit_char n \<noteq> CHR ''-''"
proof -
  have d: "(of_char (digit_char n) :: nat) = 48 + n"
    using assms by (rule of_char_digit_char)
  show "digit_char n \<noteq> CHR '',''"
  proof
    assume "digit_char n = CHR '',''"
    then have "(of_char (digit_char n) :: nat) = of_char (CHR '','')" by simp
    with d show False by simp
  qed
  show "digit_char n \<noteq> CHR ''-''"
  proof
    assume "digit_char n = CHR ''-''"
    then have "(of_char (digit_char n) :: nat) = of_char (CHR ''-'')" by simp
    with d show False by simp
  qed
qed

declare digits.simps [simp del]

lemma digits_chars: "c \<in> set (digits n) \<Longrightarrow> c \<noteq> CHR '','' \<and> c \<noteq> CHR ''-''"
proof (induction n rule: digits.induct)
  case (1 n)
  show ?case
  proof (cases "n < 10")
    case True
    with "1.prems" show ?thesis
      by (auto simp: digits.simps [of n] digit_char_not_sep)
  next
    case False
    with "1.prems" "1.IH" show ?thesis
      by (auto simp: digits.simps [of n] digit_char_not_sep)
  qed
qed

lemma digits_nonempty: "digits n \<noteq> []"
  by (subst digits.simps) simp

lemma digits_length_one: "length (digits n) = 1 \<longleftrightarrow> n < 10"
proof (cases "n < 10")
  case True
  then show ?thesis by (simp add: digits.simps [of n])
next
  case False
  have "digits (n div 10) \<noteq> []" by (rule digits_nonempty)
  then have "0 < length (digits (n div 10))" by simp
  with False show ?thesis by (simp add: digits.simps [of n])
qed

lemma digits_inj: "digits n = digits m \<Longrightarrow> n = m"
proof (induction n arbitrary: m rule: digits.induct)
  case (1 n)
  show ?case
  proof (cases "n < 10")
    case True
    with "1.prems" have m: "m < 10"
      using digits_length_one [of n] digits_length_one [of m] by simp
    with True "1.prems" show ?thesis
      by (simp add: digits.simps [of n] digits.simps [of m] digit_char_inj)
  next
    case False
    with "1.prems" have m: "\<not> m < 10"
      using digits_length_one [of n] digits_length_one [of m] by simp
    from False m "1.prems"
    have "digits (n div 10) = digits (m div 10)" "digit_char (n mod 10) = digit_char (m mod 10)"
      by (simp_all add: digits.simps [of n] digits.simps [of m])
    then have "n div 10 = m div 10" "n mod 10 = m mod 10"
      using "1.IH" [OF False] by (simp_all add: digit_char_inj)
    then show ?thesis
      by (metis div_mult_mod_eq)
  qed
qed

lemma string_of_int_chars: "CHR '','' \<notin> set (string_of_int i)"
  using digits_chars by (auto simp: string_of_int_def)

lemma string_of_int_inj: "string_of_int i = string_of_int j \<Longrightarrow> i = j"
proof -
  assume a: "string_of_int i = string_of_int j"
  have hd: "hd (digits n) \<noteq> CHR ''-''" for n
    using digits_chars [of "hd (digits n)" n] digits_nonempty [of n] by simp
  show ?thesis
  proof (cases "i < 0")
    case True
    show ?thesis
    proof (cases "j < 0")
      case j: True
      with True a have "nat (- i) = nat (- j)"
        by (simp add: string_of_int_def digits_inj)
      with True j show ?thesis by simp
    next
      case j: False
      with True a have "CHR ''-'' # digits (nat (- i)) = digits (nat j)"
        by (simp add: string_of_int_def)
      then have "hd (digits (nat j)) = CHR ''-''"
        by (metis list.sel(1))
      with hd show ?thesis by simp
    qed
  next
    case False
    show ?thesis
    proof (cases "j < 0")
      case j: True
      with False a have "digits (nat i) = CHR ''-'' # digits (nat (- j))"
        by (simp add: string_of_int_def)
      then have "hd (digits (nat i)) = CHR ''-''"
        by (metis list.sel(1))
      with hd show ?thesis by simp
    next
      case j: False
      with False a have "nat i = nat j"
        by (simp add: string_of_int_def digits_inj)
      with False j show ?thesis by simp
    qed
  qed
qed

lemma append_sep_inj:
  assumes "a @ c # b = a' @ c # b'" "c \<notin> set a" "c \<notin> set a'"
  shows "a = a' \<and> b = b'"
  using assms
proof (induction a arbitrary: a')
  case Nil
  then show ?case by (cases a') auto
next
  case (Cons x a)
  then show ?case by (cases a') auto
qed

lemma rayKey_inj: "rayKey x y = rayKey x' y' \<longleftrightarrow> x = x' \<and> y = y'"
proof
  assume "rayKey x y = rayKey x' y'"
  then have "string_of_int x @ CHR '','' # string_of_int y
      = string_of_int x' @ CHR '','' # string_of_int y'"
    by (simp add: rayKey_def)
  from append_sep_inj [OF this string_of_int_chars string_of_int_chars]
  show "x = x' \<and> y = y'"
    by (simp add: string_of_int_inj)
qed simp

section \<open>Ray generation\<close>

lemma dedupFrom_set: "set (dedupFrom seen ps) = set ps - seen"
  by (induction ps arbitrary: seen) auto

lemma dedupFrom_distinct: "distinct (dedupFrom seen ps)"
  by (induction ps arbitrary: seen) (auto simp: dedupFrom_set)

lemma fold_visitPoint:
  "fold (visitPoint lx ly) ps ((\<lambda>p. rayKey (fst p) (snd p)) ` seen, rs) =
     ((\<lambda>p. rayKey (fst p) (snd p)) ` (seen \<union> set ps),
      rs @ concat (map (endpointRays lx ly) (dedupFrom seen ps)))"
proof (induction ps arbitrary: seen rs)
  case Nil
  show ?case by simp
next
  case (Cons p ps)
  have mem: "rayKey (fst p) (snd p) \<in> (\<lambda>p. rayKey (fst p) (snd p)) ` seen \<longleftrightarrow> p \<in> seen"
    by (auto simp: rayKey_inj prod_eq_iff)
  show ?case
  proof (cases "p \<in> seen")
    case True
    then have "visitPoint lx ly p ((\<lambda>p. rayKey (fst p) (snd p)) ` seen, rs)
        = ((\<lambda>p. rayKey (fst p) (snd p)) ` seen, rs)"
      using mem by (simp add: visitPoint_def)
    with True Cons.IH [of seen rs] show ?thesis
      by (simp add: insert_absorb)
  next
    case False
    then have "visitPoint lx ly p ((\<lambda>p. rayKey (fst p) (snd p)) ` seen, rs)
        = ((\<lambda>p. rayKey (fst p) (snd p)) ` insert p seen, rs @ endpointRays lx ly p)"
      using mem by (simp add: visitPoint_def)
    with False Cons.IH [of "insert p seen" "rs @ endpointRays lx ly p"] show ?thesis
      by simp
  qed
qed

lemma fold_fold_concat: "fold (\<lambda>x. fold f (g x)) xs acc = fold f (concat (map g xs)) acc"
  by (induction xs arbitrary: acc) simp_all

lemma castRays_dedup:
  "castRays lx ly es =
     concat (map (endpointRays lx ly) (dedupFrom {} (concat (map edgePoints es))))"
proof -
  have "fold (\<lambda>e acc. fold (visitPoint lx ly) (edgePoints e) acc) es ({}, [])
      = fold (visitPoint lx ly) (concat (map edgePoints es)) ({}, [])"
    by (rule fold_fold_concat)
  also have "\<dots> = ((\<lambda>p. rayKey (fst p) (snd p)) ` set (concat (map edgePoints es)),
      concat (map (endpointRays lx ly) (dedupFrom {} (concat (map edgePoints es)))))"
    using fold_visitPoint [of lx ly "concat (map edgePoints es)" "{}" "[]"]
    by simp
  finally show ?thesis
    by (simp add: castRays_def)
qed

lemma length_endpointRays: "length (endpointRays lx ly p) = 3"
  by (simp add: endpointRays_def Let_def)

lemma length_concat_endpointRays:
  "length (concat (map (endpointRays lx ly) ps)) = 3 * length ps"
  by (induction ps) (simp_all add: length_endpointRays)

lemma endpointRays_explicit:
  "endpointRays lx ly p =
     map (\<lambda>a. \<lparr>ray.sx = lx, sy = ly,
               ex = lx + cos a * 1.5 * real_of_int (TILE_X_COUNT * TILE_SIZE),
               ey = ly + sin a * 1.5 * real_of_int (TILE_Y_COUNT * TILE_SIZE),
               angle = a\<rparr>)
       [atan2 (real_of_int (snd p) - ly) (real_of_int (fst p) - lx) - 0.0001,
        atan2 (real_of_int (snd p) - ly) (real_of_int (fst p) - lx),
        atan2 (real_of_int (snd p) - ly) (real_of_int (fst p) - lx) + 0.0001]"
  by (simp add: endpointRays_def mkRay_def Let_def)

text \<open>
  Claim C4. With a light at \<open>(lx, ly)\<close>, ray generation yields, for a duplicate-free list of
  all world-space endpoints of the edges (both ends of every edge, compared as coordinate
  pairs), exactly three rays per endpoint, at the angles \<open>base - 0.0001\<close>, \<open>base\<close> and
  \<open>base + 0.0001\<close> with \<open>base\<close> the \<open>atan2\<close> from the light to the endpoint; each ray
  starts at the light and ends at the light plus \<open>(cos angle * 1.5 * width, sin angle * 1.5 *
  height)\<close> of the grid in pixels; so there are 3 times as many rays as distinct endpoints.
\<close>

theorem castRays_three_per_endpoint:
  "\<exists>ps. distinct ps \<and> set ps = set (concat (map edgePoints es)) \<and>
     castRays lx ly es =
       concat (map (\<lambda>p.
         map (\<lambda>a. \<lparr>ray.sx = lx, sy = ly,
                   ex = lx + cos a * 1.5 * real_of_int (TILE_X_COUNT * TILE_SIZE),
                   ey = ly + sin a * 1.5 * real_of_int (TILE_Y_COUNT * TILE_SIZE),
                   angle = a\<rparr>)
           [atan2 (real_of_int (snd p) - ly) (real_of_int (fst p) - lx) - 0.0001,
            atan2 (real_of_int (snd p) - ly) (real_of_int (fst p) - lx),
            atan2 (real_of_int (snd p) - ly) (real_of_int (fst p) - lx) + 0.0001]) ps) \<and>
     length (castRays lx ly es) = 3 * card (set (concat (map edgePoints es)))"
proof -
  let ?ps = "dedupFrom {} (concat (map edgePoints es))"
  have d: "distinct ?ps" by (rule dedupFrom_distinct)
  have s: "set ?ps = set (concat (map edgePoints es))"
    by (simp only: dedupFrom_set Diff_empty)
  have c: "castRays lx ly es = concat (map (endpointRays lx ly) ?ps)"
    by (rule castRays_dedup)
  have "length (castRays lx ly es) = 3 * length ?ps"
    unfolding c by (rule length_concat_endpointRays)
  also have "length ?ps = card (set (concat (map edgePoints es)))"
    using distinct_card [OF d] s by simp
  finally have l: "length (castRays lx ly es) = 3 * card (set (concat (map edgePoints es)))" .
  have "map (endpointRays lx ly) ?ps = map (\<lambda>p.
         map (\<lambda>a. \<lparr>ray.sx = lx, sy = ly,
                   ex = lx + cos a * 1.5 * real_of_int (TILE_X_COUNT * TILE_SIZE),
                   ey = ly + sin a * 1.5 * real_of_int (TILE_Y_COUNT * TILE_SIZE),
                   angle = a\<rparr>)
           [atan2 (real_of_int (snd p) - ly) (real_of_int (fst p) - lx) - 0.0001,
            atan2 (real_of_int (snd p) - ly) (real_of_int (fst p) - lx),
            atan2 (real_of_int (snd p) - ly) (real_of_int (fst p) - lx) + 0.0001]) ?ps"
    by (rule map_cong [OF refl]) (rule endpointRays_explicit)
  with c have "castRays lx ly es = concat (map (\<lambda>p.
         map (\<lambda>a. \<lparr>ray.sx = lx, sy = ly,
                   ex = lx + cos a * 1.5 * real_of_int (TILE_X_COUNT * TILE_SIZE),
                   ey = ly + sin a * 1.5 * real_of_int (TILE_Y_COUNT * TILE_SIZE),
                   angle = a\<rparr>)
           [atan2 (real_of_int (snd p) - ly) (real_of_int (fst p) - lx) - 0.0001,
            atan2 (real_of_int (snd p) - ly) (real_of_int (fst p) - lx),
            atan2 (real_of_int (snd p) - ly) (real_of_int (fst p) - lx) + 0.0001]) ?ps)"
    by (simp only:)
  with d s l show ?thesis by (intro exI [of _ ?ps] conjI)
qed

section \<open>Clipping keeps origin and angle; the result is sorted\<close>

lemma clipStep_frame:
  "ray.sx (clipStep lx ly e r) = ray.sx r \<and> ray.sy (clipStep lx ly e r) = ray.sy r \<and>
   ray.angle (clipStep lx ly e r) = ray.angle r"
  by (simp add: clipStep_def Let_def case_prod_beta split: option.splits)

lemma clipRay_frame:
  "ray.sx (clipRay lx ly es r) = ray.sx r \<and> ray.sy (clipRay lx ly es r) = ray.sy r \<and>
   ray.angle (clipRay lx ly es r) = ray.angle r"
  unfolding clipRay_def by (induction es arbitrary: r) (simp_all add: clipStep_frame)

lemma getRaysToEdges_light:
  "lightSource st = Some (lx, ly) \<Longrightarrow>
   rays (getRaysToEdges st) =
     sort_key ray.angle (map (clipRay lx ly (getAllEdges st)) (castRays lx ly (getAllEdges st)))"
  by (simp add: getRaysToEdges_def getAllEdges_def Let_def)

text \<open>
  Claim C5. A clipping step changes at most the endpoint of a ray: origin and stored angle
  stay as generated. With a light source, the returned rays are sorted ascending by the
  stored angle, and their origins and angles are those of the generated rays.
\<close>

theorem clip_keeps_origin_angle_sorted:
  assumes "lightSource st = Some (lx, ly)"
  shows "(\<forall>e r. ray.sx (clipStep lx ly e r) = ray.sx r \<and> ray.sy (clipStep lx ly e r) = ray.sy r \<and>
            ray.angle (clipStep lx ly e r) = ray.angle r) \<and>
     sorted (map ray.angle (rays (getRaysToEdges st))) \<and>
     mset (map (\<lambda>r. (ray.sx r, ray.sy r, ray.angle r)) (rays (getRaysToEdges st))) =
       mset (map (\<lambda>r. (ray.sx r, ray.sy r, ray.angle r)) (castRays lx ly (getAllEdges st)))"
proof (intro conjI allI)
  let ?es = "getAllEdges st"
  let ?f = "\<lambda>r. (ray.sx r, ray.sy r, ray.angle r)"
  show "sorted (map ray.angle (rays (getRaysToEdges st)))"
    unfolding getRaysToEdges_light [OF assms] by (rule sorted_sort_key)
  have "mset (map ?f (rays (getRaysToEdges st)))
      = image_mset ?f (mset (map (clipRay lx ly ?es) (castRays lx ly ?es)))"
    unfolding getRaysToEdges_light [OF assms] by (simp only: mset_map mset_sort)
  also have "\<dots> = mset (map (\<lambda>r. ?f (clipRay lx ly ?es r)) (castRays lx ly ?es))"
    by (simp only: mset_map image_mset.compositionality comp_def)
  also have "(\<lambda>r. ?f (clipRay lx ly ?es r)) = ?f"
    by (simp only: clipRay_frame)
  finally show "mset (map ?f (rays (getRaysToEdges st))) = mset (map ?f (castRays lx ly ?es))" .
qed (simp_all only: clipStep_frame)

theorem clip_keeps_origin_angle_sorted_witness:
  "lightSource \<lparr>cells = Map.empty, edges = [(1, \<lparr>edge.sx = 1, sy = - 1, ex = 1, ey = 1\<rparr>)],
       edgeId = 2, lightSource = Some (0, 0), rays = []\<rparr> = Some (0, 0) \<and>
   sorted (map ray.angle (rays (getRaysToEdges
     \<lparr>cells = Map.empty, edges = [(1, \<lparr>edge.sx = 1, sy = - 1, ex = 1, ey = 1\<rparr>)],
       edgeId = 2, lightSource = Some (0, 0), rays = []\<rparr>)))"
  using clip_keeps_origin_angle_sorted
    [of "\<lparr>cells = Map.empty, edges = [(1, \<lparr>edge.sx = 1, sy = - 1, ex = 1, ey = 1\<rparr>)],
       edgeId = 2, lightSource = Some (0, 0), rays = []\<rparr>" 0 0]
  by simp

section \<open>Clipping a ray to the nearest edge\<close>
















section \<open>The grid and the edge table\<close>

subsection \<open>Reading the grid and the edge table after an update\<close>

lemma hasCell_getCell: "hasCell st x y \<longleftrightarrow> getCell st x y \<noteq> None"
  by (simp add: hasCell_def getCell_def split: option.splits)

lemma getCell_modCell:
  "getCell (modCell x y f st) a b =
     (if a = x \<and> b = y then map_option f (getCell st x y) else getCell st a b)"
  by (simp add: getCell_def modCell_def split: option.splits)

lemma hasCell_modCell [simp]: "hasCell (modCell x y f st) a b = hasCell st a b"
  by (simp add: hasCell_getCell getCell_modCell)

lemma modCell_frame [simp]:
  "edges (modCell x y f st) = edges st"
  "edgeId (modCell x y f st) = edgeId st"
  "getEdge (modCell x y f st) i = getEdge st i"
  by (simp_all add: modCell_def getEdge_def split: option.splits)

lemma getCell_edges_update [simp]:
  "getCell (st\<lparr>edges := es\<rparr>) a b = getCell st a b"
  "getCell (st\<lparr>edgeId := k\<rparr>) a b = getCell st a b"
  "hasCell (st\<lparr>edges := es\<rparr>) a b = hasCell st a b"
  "hasCell (st\<lparr>edgeId := k\<rparr>) a b = hasCell st a b"
  by (simp_all add: getCell_def hasCell_def)

lemma getEdge_update [simp]:
  "getEdge (st\<lparr>edges := AList.update i e (edges st)\<rparr>) j = (if j = i then Some e else getEdge st j)"
  by (simp add: getEdge_def update_conv')

lemma extending_neq: "extending d x y \<noteq> (x, y)"
  by (cases d) simp_all

subsection \<open>The three outcomes of one side block\<close>

lemma checkSide_blocked:
  assumes "hasCell st (fst (across d x y)) (snd (across d x y))"
  shows "checkSide d x y st = Some (modCell x y (setSide d False 0) st)"
  using assms by (simp add: checkSide_def setSide_def [abs_def])

lemma getCell_extending_modCell:
  "getCell (modCell x y f st) (fst (extending d x y)) (snd (extending d x y))
     = getCell st (fst (extending d x y)) (snd (extending d x y))"
  using extending_neq [of d x y] by (auto simp: getCell_modCell prod_eq_iff)

lemma checkSide_new:
  assumes "\<not> hasCell st (fst (across d x y)) (snd (across d x y))"
    and "\<forall>nc. getCell st (fst (extending d x y)) (snd (extending d x y)) = Some nc
           \<longrightarrow> \<not> existEdges nc d"
  shows "checkSide d x y st = Some (modCell x y (setSide d True (edgeId st))
          (st\<lparr>edgeId := edgeId st + 1, edges := AList.update (edgeId st) (unitEdge d x y) (edges st)\<rparr>))"
proof -
  let ?st1 = "modCell x y (\<lambda>c. c\<lparr>existEdges := (existEdges c)(d := True)\<rparr>) st"
  have "checkSide d x y st = Some (newEdge d x y ?st1)"
    using assms by (auto simp: checkSide_def Let_def getCell_extending_modCell split: option.splits)
  moreover have "newEdge d x y ?st1 = modCell x y (setSide d True (edgeId st))
          (st\<lparr>edgeId := edgeId st + 1, edges := AList.update (edgeId st) (unitEdge d x y) (edges st)\<rparr>)"
    by (simp add: newEdge_def addEdge_def Let_def modCell_def setSide_def split: option.splits)
  ultimately show ?thesis by simp
qed

lemma modCell_modCell:
  "modCell x y g (modCell x y f st) = modCell x y (\<lambda>c. g (f c)) st"
  by (simp add: modCell_def split: option.splits)

lemma modCell_edges_update:
  "(modCell x y f st)\<lparr>edges := es\<rparr> = modCell x y f (st\<lparr>edges := es\<rparr>)"
  by (simp add: modCell_def split: option.splits)

lemma checkSide_extend:
  assumes "\<not> hasCell st (fst (across d x y)) (snd (across d x y))"
    and "getCell st (fst (extending d x y)) (snd (extending d x y)) = Some nc"
    and "existEdges nc d"
  shows "checkSide d x y st =
    (case getEdge st (edgeIds nc d) of
       None \<Rightarrow> None
     | Some e \<Rightarrow> Some (modCell x y (setSide d True (edgeIds nc d))
          (st\<lparr>edges := AList.update (edgeIds nc d) (growEdge d x y e) (edges st)\<rparr>)))"
  using assms
  by (simp add: checkSide_def Let_def getCell_extending_modCell modCell_modCell
      modCell_edges_update setSide_def [abs_def] split: option.splits)

section \<open>The scan of computeEdges\<close>

subsection \<open>Loops\<close>

lemma forEach_preserves:
  assumes "\<And>i s s'. i \<in> set xs \<Longrightarrow> P s \<Longrightarrow> f i s = Some s' \<Longrightarrow> P s'"
    and "P s" and "forEach f xs s = Some s'"
  shows "P s'"
  using assms
proof (induction xs arbitrary: s)
  case Nil
  then show ?case by simp
next
  case (Cons a xs)
  from Cons.prems(3) obtain s1 where s1: "f a s = Some s1" "forEach f xs s1 = Some s'"
    by (auto split: option.splits)
  have "P s1" using Cons.prems(1) [OF _ Cons.prems(2) s1(1)] by simp
  show ?case
  proof (rule Cons.IH [OF _ \<open>P s1\<close> s1(2)])
    show "P t'" if "i \<in> set xs" "P t" "f i t = Some t'" for i t t'
      using Cons.prems(1) [of i t t'] that by simp
  qed
qed

lemma forEach_upto_inv:
  assumes "lo \<le> hi + 1" and "P lo s"
    and "\<And>i s. lo \<le> i \<Longrightarrow> i \<le> hi \<Longrightarrow> P i s \<Longrightarrow> \<exists>s'. f i s = Some s' \<and> P (i + 1) s'"
  shows "\<exists>s'. forEach f [lo..hi] s = Some s' \<and> P (hi + 1) s'"
  using assms
proof (induction "nat (hi + 1 - lo)" arbitrary: lo s)
  case 0
  then have "lo = hi + 1" by simp
  with "0.prems"(2) show ?case by simp
next
  case (Suc n)
  then have le: "lo \<le> hi" by simp
  from Suc.prems(3) [OF _ le Suc.prems(2)] obtain s1 where s1: "f lo s = Some s1" "P (lo + 1) s1"
    by auto
  have "\<exists>s'. forEach f [lo + 1..hi] s1 = Some s' \<and> P (hi + 1) s'"
  proof (rule Suc.hyps(1))
    show "n = nat (hi + 1 - (lo + 1))" using Suc.hyps(2) by simp
    show "lo + 1 \<le> hi + 1" using le by simp
    show "P (lo + 1) s1" by (rule s1(2))
    show "\<exists>s'. f i s = Some s' \<and> P (i + 1) s'" if "lo + 1 \<le> i" "i \<le> hi" "P i s" for i s
      using Suc.prems(3) [of i s] that by simp
  qed
  with s1(1) le show ?case
    by (simp add: upto_rec1 [of lo hi])
qed

lemma forEach_upto_rel:
  assumes "lo \<le> hi + 1" and "R lo s1 s2"
    and "\<And>i s1 s2. lo \<le> i \<Longrightarrow> i \<le> hi \<Longrightarrow> R i s1 s2 \<Longrightarrow> rel_option (R (i + 1)) (f i s1) (f i s2)"
  shows "rel_option (R (hi + 1)) (forEach f [lo..hi] s1) (forEach f [lo..hi] s2)"
  using assms
proof (induction "nat (hi + 1 - lo)" arbitrary: lo s1 s2)
  case 0
  then have "lo = hi + 1" by simp
  with "0.prems"(2) show ?case by simp
next
  case (Suc n)
  then have le: "lo \<le> hi" by simp
  have step: "rel_option (R (lo + 1)) (f lo s1) (f lo s2)"
    using Suc.prems(3) [OF _ le Suc.prems(2)] by simp
  show ?case
  proof (cases "f lo s1")
    case None
    with step have "f lo s2 = None" by (cases "f lo s2") simp_all
    with None le show ?thesis by (simp add: upto_rec1 [of lo hi])
  next
    case (Some t1)
    with step obtain t2 where t2: "f lo s2 = Some t2" "R (lo + 1) t1 t2"
      by (cases "f lo s2") simp_all
    have "rel_option (R (hi + 1)) (forEach f [lo + 1..hi] t1) (forEach f [lo + 1..hi] t2)"
    proof (rule Suc.hyps(1))
      show "n = nat (hi + 1 - (lo + 1))" using Suc.hyps(2) by simp
      show "lo + 1 \<le> hi + 1" using le by simp
      show "R (lo + 1) t1 t2" by (rule t2(2))
      show "rel_option (R (i + 1)) (f i s1) (f i s2)" if "lo + 1 \<le> i" "i \<le> hi" "R i s1 s2" for i s1 s2
        using Suc.prems(3) [of i s1 s2] that by simp
    qed
    with Some t2(1) le show ?thesis by (simp add: upto_rec1 [of lo hi])
  qed
qed

lemma bind_rel:
  assumes "rel_option R a b" and "\<And>x y. R x y \<Longrightarrow> rel_option R' (f x) (f y)"
  shows "rel_option R' (Option.bind a f) (Option.bind b f)"
  using assms by (cases a; cases b) simp_all

subsection \<open>The processed part of the grid\<close>

lemma scanned_insert:
  "inExtent (x, y) \<Longrightarrow> occ (x, y) \<Longrightarrow>
   insert ((x, y), d) (scanned occ x y ds) = scanned occ x y (insert d ds)"
  by (auto simp: scanned_def)

lemma scanned_next:
  "scanned occ x y UNIV = scanned occ x (y + 1) {}"
  by (auto simp: scanned_def)

lemma scanned_skip:
  "\<not> occ (x, y) \<Longrightarrow> scanned occ x y {} = scanned occ x (y + 1) {}"
  by (auto simp: scanned_def) (metis order_le_less)

lemma scanned_column:
  "scanned occ x TILE_Y_COUNT {} = scanned occ (x + 1) 0 {}"
  by (auto simp: scanned_def inExtent_def)

lemma scanned_none: "scanned occ 0 0 {} = {}"
  by (auto simp: scanned_def inExtent_def)

lemma side_UNIV: "(UNIV :: side set) = {NORTH, EAST, SOUTH, WEST}"
  using side.exhaust by auto

lemma extending_scanned:
  assumes "inExtent (extending d x y)" "occ (extending d x y)"
  shows "(extending d x y, d) \<in> scanned occ x y ds"
  using assms by (cases d) (auto simp: scanned_def)

subsection \<open>What a side block leaves alone\<close>

lemma modCell_other [simp]:
  "lightSource (modCell x y f st) = lightSource st" "rays (modCell x y f st) = rays st"
  by (simp_all add: modCell_def split: option.splits)

lemma checkSide_frame:
  assumes "checkSide d x y st = Some st'"
  shows "hasCell st' a b = hasCell st a b"
    and "(a, b) \<noteq> (x, y) \<Longrightarrow> getCell st' a b = getCell st a b"
    and "lightSource st' = lightSource st" and "rays st' = rays st"
proof -
  have "hasCell st' a b = hasCell st a b \<and> ((a, b) \<noteq> (x, y) \<longrightarrow> getCell st' a b = getCell st a b)
      \<and> lightSource st' = lightSource st \<and> rays st' = rays st"
  proof (cases "hasCell st (fst (across d x y)) (snd (across d x y))")
    case True
    from assms [unfolded checkSide_blocked [OF True]] show ?thesis
      by (auto simp: getCell_modCell)
  next
    case False
    show ?thesis
    proof (cases "\<forall>nc. getCell st (fst (extending d x y)) (snd (extending d x y)) = Some nc
           \<longrightarrow> \<not> existEdges nc d")
      case True
      from assms [unfolded checkSide_new [OF False True]] show ?thesis
        by (auto simp: getCell_modCell)
    next
      case ex: False
      then obtain nc where nc: "getCell st (fst (extending d x y)) (snd (extending d x y)) = Some nc"
        "existEdges nc d" by blast
      from assms [unfolded checkSide_extend [OF False nc]] show ?thesis
        by (auto simp: getCell_modCell split: option.splits)
    qed
  qed
  then show "hasCell st' a b = hasCell st a b"
    and "(a, b) \<noteq> (x, y) \<Longrightarrow> getCell st' a b = getCell st a b"
    and "lightSource st' = lightSource st" and "rays st' = rays st"
    by simp_all
qed

lemma computeCell_frame:
  assumes "computeCell x y st = Some st'"
  shows "hasCell st' a b = hasCell st a b"
    and "(a, b) \<noteq> (x, y) \<Longrightarrow> getCell st' a b = getCell st a b"
    and "lightSource st' = lightSource st" and "rays st' = rays st"
proof -
  have "(hasCell st' a b = hasCell st a b) \<and> ((a, b) \<noteq> (x, y) \<longrightarrow> getCell st' a b = getCell st a b)
      \<and> lightSource st' = lightSource st \<and> rays st' = rays st"
  proof (cases "getCell st x y")
    case None
    with assms show ?thesis by (simp add: computeCell_def)
  next
    case (Some c)
    with assms obtain t1 t2 t3 where
      "checkSide NORTH x y st = Some t1" "checkSide EAST x y t1 = Some t2"
      "checkSide SOUTH x y t2 = Some t3" "checkSide WEST x y t3 = Some st'"
      by (auto simp: computeCell_def bind_eq_Some_conv)
    then show ?thesis
      by (simp add: checkSide_frame)
  qed
  then show "hasCell st' a b = hasCell st a b"
    and "(a, b) \<noteq> (x, y) \<Longrightarrow> getCell st' a b = getCell st a b"
    and "lightSource st' = lightSource st" and "rays st' = rays st"
    by simp_all
qed

lemma computeEdges_frame:
  assumes "computeEdges st = Some st'"
  shows "hasCell st' a b = hasCell st a b"
    and "\<not> inExtent (a, b) \<Longrightarrow> getCell st' a b = getCell st a b"
    and "lightSource st' = lightSource st" and "rays st' = rays st"
proof -
  let ?P = "\<lambda>s. (\<forall>a b. hasCell s a b = hasCell st a b) \<and>
      (\<forall>a b. \<not> inExtent (a, b) \<longrightarrow> getCell s a b = getCell st a b) \<and>
      lightSource s = lightSource st \<and> rays s = rays st"
  have row: "?P s'" if "?P s" "forEach (\<lambda>y. computeCell x y) [0..TILE_Y_COUNT - 1] s = Some s'"
    and x: "x \<in> set [0..TILE_X_COUNT - 1]" for x s s'
  proof (rule forEach_preserves [where P = ?P, OF _ that(1,2)])
    fix y s s'
    assume y: "y \<in> set [0..TILE_Y_COUNT - 1]" and P: "?P s" and c: "computeCell x y s = Some s'"
    have "inExtent (x, y)" using x y by (simp add: inExtent_def)
    then have "(a, b) \<noteq> (x, y)" if "\<not> inExtent (a, b)" for a b
      using that by auto
    with P computeCell_frame [OF c] show "?P s'"
      by simp
  qed
  have "?P (clearEdges st)"
    by (simp add: clearEdges_def)
  from forEach_preserves [where P = ?P, OF _ this assms [unfolded computeEdges_def]] row
  have "?P st'" by blast
  then show "hasCell st' a b = hasCell st a b"
    and "\<not> inExtent (a, b) \<Longrightarrow> getCell st' a b = getCell st a b"
    and "lightSource st' = lightSource st" and "rays st' = rays st"
    by simp_all
qed

subsection \<open>Two scans of grids that agree where the scan reads\<close>

lemma sameView_step:
  assumes v: "sameView occ Q s1 s2" and e: "edges t1 = edges t2" "edgeId t1 = edgeId t2"
    and g: "\<And>a b. getCell t1 a b = getCell s1 a b" "\<And>a b. getCell t2 a b = getCell s2 a b"
  shows "sameView occ (insert ((x, y), d) Q)
     (modCell x y (setSide d B I) t1) (modCell x y (setSide d B I) t2)"
proof -
  let ?f = "setSide d B I"
  from v have h: "\<And>a b. hasCell s1 a b = occ (a, b)" "\<And>a b. hasCell s2 a b = occ (a, b)"
    and old: "\<And>a b c1 c2 d. getCell s1 a b = Some c1 \<Longrightarrow> getCell s2 a b = Some c2 \<Longrightarrow>
        ((a, b), d) \<in> Q \<or> \<not> inExtent (a, b) \<Longrightarrow>
        existEdges c1 d = existEdges c2 d \<and> edgeIds c1 d = edgeIds c2 d"
    unfolding sameView_def by blast+
  have h': "hasCell t1 a b = occ (a, b)" "hasCell t2 a b = occ (a, b)" for a b
    using h [of a b] by (simp_all add: hasCell_getCell g)
  have new: "existEdges c1 d' = existEdges c2 d' \<and> edgeIds c1 d' = edgeIds c2 d'"
    if c: "getCell (modCell x y ?f t1) a b = Some c1" "getCell (modCell x y ?f t2) a b = Some c2"
      and q: "((a, b), d') \<in> insert ((x, y), d) Q \<or> \<not> inExtent (a, b)" for a b c1 c2 d'
  proof (cases "a = x \<and> b = y")
    case True
    with c obtain o1 o2 where o: "getCell s1 x y = Some o1" "getCell s2 x y = Some o2"
      "c1 = ?f o1" "c2 = ?f o2"
      by (auto simp: getCell_modCell g)
    show ?thesis
    proof (cases "d' = d")
      case True
      with o show ?thesis by (simp add: setSide_def)
    next
      case False
      with q True have "((x, y), d') \<in> Q \<or> \<not> inExtent (x, y)" by auto
      from old [OF o(1,2) this] False o(3,4) show ?thesis by (simp add: setSide_def)
    qed
  next
    case False
    with c have o: "getCell s1 a b = Some c1" "getCell s2 a b = Some c2"
      by (auto simp: getCell_modCell g)
    from q False have "((a, b), d') \<in> Q \<or> \<not> inExtent (a, b)" by auto
    from old [OF o this] show ?thesis .
  qed
  show ?thesis
    unfolding sameView_def using e h' new by (simp (no_asm_simp)) blast
qed

lemma checkSide_sameView:
  assumes v: "sameView occ Q s1 s2"
    and pre: "inExtent (extending d x y) \<and> occ (extending d x y) \<longrightarrow> (extending d x y, d) \<in> Q"
  shows "rel_option (sameView occ (insert ((x, y), d) Q)) (checkSide d x y s1) (checkSide d x y s2)"
proof -
  let ?n = "extending d x y"
  from v have h: "\<And>a b. hasCell s1 a b = occ (a, b)" "\<And>a b. hasCell s2 a b = occ (a, b)"
    and ed: "edges s1 = edges s2" "edgeId s1 = edgeId s2"
    unfolding sameView_def by simp_all
  have ge: "getEdge s1 i = getEdge s2 i" for i
    using ed by (simp add: getEdge_def)
  have nb: "existEdges c1 d = existEdges c2 d \<and> edgeIds c1 d = edgeIds c2 d"
    if "getCell s1 (fst ?n) (snd ?n) = Some c1" "getCell s2 (fst ?n) (snd ?n) = Some c2" for c1 c2
  proof -
    have "occ ?n" using that(1) h(1) [of "fst ?n" "snd ?n"] by (simp add: hasCell_getCell)
    with pre have "(?n, d) \<in> Q \<or> \<not> inExtent ?n" by blast
    with v that show ?thesis unfolding sameView_def
      by (metis prod.collapse)
  qed
  have "hasCell s1 (fst ?n) (snd ?n) = hasCell s2 (fst ?n) (snd ?n)"
    by (simp only: h)
  then have nn: "getCell s1 (fst ?n) (snd ?n) = None \<longleftrightarrow> getCell s2 (fst ?n) (snd ?n) = None"
    unfolding hasCell_getCell by blast
  show ?thesis
  proof (cases "occ (across d x y)")
    case True
    then have "hasCell s1 (fst (across d x y)) (snd (across d x y))"
      "hasCell s2 (fst (across d x y)) (snd (across d x y))"
      by (simp_all add: h)
    then show ?thesis
      by (simp add: checkSide_blocked sameView_step [OF v ed])
  next
    case False
    then have a: "\<not> hasCell s1 (fst (across d x y)) (snd (across d x y))"
      "\<not> hasCell s2 (fst (across d x y)) (snd (across d x y))"
      by (simp_all add: h)
    show ?thesis
    proof (cases "\<forall>nc. getCell s1 (fst ?n) (snd ?n) = Some nc \<longrightarrow> \<not> existEdges nc d")
      case True
      then have "\<forall>nc. getCell s2 (fst ?n) (snd ?n) = Some nc \<longrightarrow> \<not> existEdges nc d"
        using nb nn by (metis option.exhaust)
      with True a ed show ?thesis
        by (simp add: checkSide_new sameView_step [OF v])
    next
      case False
      then obtain c1 where c1: "getCell s1 (fst ?n) (snd ?n) = Some c1" "existEdges c1 d"
        by blast
      with nn obtain c2 where c2: "getCell s2 (fst ?n) (snd ?n) = Some c2"
        by (cases "getCell s2 (fst ?n) (snd ?n)") simp_all
      from nb [OF c1(1) c2] c1(2) have eq: "existEdges c2 d" "edgeIds c2 d = edgeIds c1 d"
        by simp_all
      show ?thesis
        unfolding checkSide_extend [OF a(1) c1] checkSide_extend [OF a(2) c2 eq(1)] eq(2) ge
        by (cases "getEdge s2 (edgeIds c1 d)") (simp_all add: sameView_step [OF v] ed)
    qed
  qed
qed

lemma computeCell_sameView:
  assumes v: "sameView occ (scanned occ x y {}) s1 s2" and i: "inExtent (x, y)"
  shows "rel_option (sameView occ (scanned occ x (y + 1) {})) (computeCell x y s1) (computeCell x y s2)"
proof (cases "occ (x, y)")
  case False
  with v have "\<not> hasCell s1 x y" "\<not> hasCell s2 x y"
    unfolding sameView_def by simp_all
  then have "getCell s1 x y = None" "getCell s2 x y = None"
    unfolding hasCell_getCell by simp_all
  with v False show ?thesis
    by (simp add: computeCell_def scanned_skip)
next
  case True
  with v have "hasCell s1 x y" "hasCell s2 x y"
    unfolding sameView_def by simp_all
  then obtain c1 c2 where c: "getCell s1 x y = Some c1" "getCell s2 x y = Some c2"
    unfolding hasCell_getCell by blast
  have step: "rel_option (sameView occ (scanned occ x y (insert d ds)))
      (checkSide d x y t1) (checkSide d x y t2)"
    if "sameView occ (scanned occ x y ds) t1 t2" for d ds t1 t2
    using checkSide_sameView [OF that, of d x y] extending_scanned [of d x y occ ds]
    by (simp add: scanned_insert [of x y occ, OF i True])
  have r1: "rel_option (sameView occ (scanned occ x y {NORTH}))
      (checkSide NORTH x y s1) (checkSide NORTH x y s2)"
    by (rule step [OF v])
  have r2: "rel_option (sameView occ (scanned occ x y {EAST, NORTH}))
      (Option.bind (checkSide NORTH x y s1) (checkSide EAST x y))
      (Option.bind (checkSide NORTH x y s2) (checkSide EAST x y))"
    by (rule bind_rel [OF r1]) (rule step)
  have r3: "rel_option (sameView occ (scanned occ x y {SOUTH, EAST, NORTH}))
      (Option.bind (Option.bind (checkSide NORTH x y s1) (checkSide EAST x y)) (checkSide SOUTH x y))
      (Option.bind (Option.bind (checkSide NORTH x y s2) (checkSide EAST x y)) (checkSide SOUTH x y))"
    by (rule bind_rel [OF r2]) (rule step)
  have r4: "rel_option (sameView occ (scanned occ x y {WEST, SOUTH, EAST, NORTH}))
      (Option.bind (Option.bind (Option.bind (checkSide NORTH x y s1) (checkSide EAST x y))
         (checkSide SOUTH x y)) (checkSide WEST x y))
      (Option.bind (Option.bind (Option.bind (checkSide NORTH x y s2) (checkSide EAST x y))
         (checkSide SOUTH x y)) (checkSide WEST x y))"
    by (rule bind_rel [OF r3]) (rule step)
  have "{WEST, SOUTH, EAST, NORTH} = (UNIV :: side set)"
    unfolding side_UNIV by auto
  with r4 show ?thesis
    by (simp add: computeCell_def c scanned_next [symmetric])
qed

lemma computeEdges_sameView:
  assumes "sameView occ {} (clearEdges s1) (clearEdges s2)"
  shows "rel_option (sameView occ (scanned occ TILE_X_COUNT 0 {})) (computeEdges s1) (computeEdges s2)"
proof -
  have row: "rel_option (sameView occ (scanned occ (x + 1) 0 {}))
      (forEach (\<lambda>y. computeCell x y) [0..TILE_Y_COUNT - 1] t1)
      (forEach (\<lambda>y. computeCell x y) [0..TILE_Y_COUNT - 1] t2)"
    if x: "0 \<le> x" "x \<le> TILE_X_COUNT - 1" and v: "sameView occ (scanned occ x 0 {}) t1 t2" for x t1 t2
  proof -
    have "rel_option (sameView occ (scanned occ x (TILE_Y_COUNT - 1 + 1) {}))
      (forEach (\<lambda>y. computeCell x y) [0..TILE_Y_COUNT - 1] t1)
      (forEach (\<lambda>y. computeCell x y) [0..TILE_Y_COUNT - 1] t2)"
    proof (rule forEach_upto_rel [where R = "\<lambda>y. sameView occ (scanned occ x y {})"])
      show "0 \<le> TILE_Y_COUNT - 1 + 1" by (simp add: TILE_Y_COUNT_def)
      show "sameView occ (scanned occ x 0 {}) t1 t2" by (rule v)
      show "rel_option (sameView occ (scanned occ x (y + 1) {})) (computeCell x y u1) (computeCell x y u2)"
        if "0 \<le> y" "y \<le> TILE_Y_COUNT - 1" "sameView occ (scanned occ x y {}) u1 u2" for y u1 u2
      proof (rule computeCell_sameView [OF that(3)])
        show "inExtent (x, y)" using x that(1,2) by (simp add: inExtent_def)
      qed
    qed
    then show ?thesis by (simp add: scanned_column)
  qed
  have "rel_option (sameView occ (scanned occ (TILE_X_COUNT - 1 + 1) 0 {}))
      (forEach (\<lambda>x. forEach (\<lambda>y. computeCell x y) [0..TILE_Y_COUNT - 1]) [0..TILE_X_COUNT - 1] (clearEdges s1))
      (forEach (\<lambda>x. forEach (\<lambda>y. computeCell x y) [0..TILE_Y_COUNT - 1]) [0..TILE_X_COUNT - 1] (clearEdges s2))"
  proof (rule forEach_upto_rel [where R = "\<lambda>x. sameView occ (scanned occ x 0 {})"])
    show "0 \<le> TILE_X_COUNT - 1 + 1" by (simp add: TILE_X_COUNT_def)
    show "sameView occ (scanned occ 0 0 {}) (clearEdges s1) (clearEdges s2)"
      using assms by (simp add: scanned_none)
  qed (rule row)
  then show ?thesis by (simp add: computeEdges_def)
qed

lemma clearEdges_cells [simp]:
  "getCell (clearEdges st) a b = getCell st a b" "hasCell (clearEdges st) a b = hasCell st a b"
  by (simp_all add: clearEdges_def getCell_def hasCell_def)

lemma computeEdges_again:
  assumes "computeEdges st = Some st1"
  shows "\<exists>st2. computeEdges st1 = Some st2 \<and> edges st2 = edges st1 \<and> edgeId st2 = edgeId st1"
proof -
  let ?occ = "\<lambda>p. hasCell st (fst p) (snd p)"
  note fr = computeEdges_frame [OF assms]
  have "sameView ?occ {} (clearEdges st) (clearEdges st1)"
    unfolding sameView_def by (auto simp: fr) (simp_all add: clearEdges_def)
  from computeEdges_sameView [OF this] assms show ?thesis
    by (cases "computeEdges st1") (simp_all add: sameView_def)
qed

section \<open>The invariant of the scan\<close>

subsection \<open>Coordinates along and across a side\<close>

lemma mkPos_along_cross [simp]: "mkPos d (along d p) (crossc d p) = p"
  by (cases d) simp_all

lemma along_mkPos [simp]: "along d (mkPos d u v) = u"
  by (cases d) simp_all

lemma cross_mkPos [simp]: "crossc d (mkPos d u v) = v"
  by (cases d) simp_all

lemma mkPos_inj [simp]: "mkPos d u v = mkPos d u' v' \<longleftrightarrow> u = u' \<and> v = v'"
  by (cases d) auto

lemma extending_mkPos: "extending d x y = mkPos d (along d (x, y) - 1) (crossc d (x, y))"
  by (cases d) simp_all

lemma unitEdge_lineEdge:
  "unitEdge d x y = lineEdge d (crossc d (x, y)) (along d (x, y)) (along d (x, y) + 1)"
  by (cases d) simp_all

lemma growEdge_lineEdge:
  "growEdge d x y (lineEdge d v lo hi) = lineEdge d v lo (along d (x, y) + 1)"
  by (cases d) simp_all

lemma lineEdge_eq:
  assumes "lineEdge d v lo hi = lineEdge d' v' lo' hi'" "lo < hi" "lo' < hi'"
  shows "lo = lo' \<and> hi = hi' \<and>
    ((d = d' \<and> v = v') \<or> (d = NORTH \<and> d' = SOUTH \<and> v = v' + 1) \<or>
     (d = SOUTH \<and> d' = NORTH \<and> v' = v + 1) \<or> (d = WEST \<and> d' = EAST \<and> v = v' + 1) \<or>
     (d = EAST \<and> d' = WEST \<and> v' = v + 1))"
  using assms by (cases d; cases d') auto

lemma boundary_opposite:
  "boundary occ NORTH (mkPos NORTH u (v + 1)) \<Longrightarrow> \<not> boundary occ SOUTH (mkPos SOUTH u v)"
  "boundary occ WEST (mkPos WEST u (v + 1)) \<Longrightarrow> \<not> boundary occ EAST (mkPos EAST u v)"
  by (simp_all add: boundary_def)

lemma runOK_unique:
  assumes a: "runOK occ Q st d v i lo hi" and b: "runOK occ Q st d' v' i lo' hi'"
  shows "d' = d \<and> v' = v \<and> lo' = lo \<and> hi' = hi"
proof -
  from a b have e: "lineEdge d v lo hi = lineEdge d' v' lo' hi'" and l: "lo < hi" "lo' < hi'"
    unfolding runOK_def by simp_all
  from a l have ba: "boundary occ d (mkPos d lo v)"
    unfolding runOK_def by simp
  from b l have bb: "boundary occ d' (mkPos d' lo' v')"
    unfolding runOK_def by simp
  from lineEdge_eq [OF e l] have lh: "lo = lo'" "hi = hi'"
    and c: "(d = d' \<and> v = v') \<or> (d = NORTH \<and> d' = SOUTH \<and> v = v' + 1) \<or>
     (d = SOUTH \<and> d' = NORTH \<and> v' = v + 1) \<or> (d = WEST \<and> d' = EAST \<and> v = v' + 1) \<or>
     (d = EAST \<and> d' = WEST \<and> v' = v + 1)"
    by simp_all
  from c ba bb lh boundary_opposite [of occ lo] show ?thesis
    by auto
qed

lemma checkSide_cases:
  obtains
    (blocked) "hasCell st (fst (across d x y)) (snd (across d x y))"
      "checkSide d x y st = Some (modCell x y (setSide d False 0) st)"
  | (fresh) "\<not> hasCell st (fst (across d x y)) (snd (across d x y))"
      "\<forall>nc. cellAt st (extending d x y) = Some nc \<longrightarrow> \<not> existEdges nc d"
      "checkSide d x y st = Some (modCell x y (setSide d True (edgeId st))
          (st\<lparr>edgeId := edgeId st + 1, edges := AList.update (edgeId st) (unitEdge d x y) (edges st)\<rparr>))"
  | (reuse) nc where "\<not> hasCell st (fst (across d x y)) (snd (across d x y))"
      "cellAt st (extending d x y) = Some nc" "existEdges nc d"
      "checkSide d x y st =
        (case getEdge st (edgeIds nc d) of
           None \<Rightarrow> None
         | Some e \<Rightarrow> Some (modCell x y (setSide d True (edgeIds nc d))
             (st\<lparr>edges := AList.update (edgeIds nc d) (growEdge d x y e) (edges st)\<rparr>)))"
proof (cases "hasCell st (fst (across d x y)) (snd (across d x y))")
  case True
  from True checkSide_blocked [OF True] show ?thesis by (rule blocked)
next
  case False
  show ?thesis
  proof (cases "\<forall>nc. cellAt st (extending d x y) = Some nc \<longrightarrow> \<not> existEdges nc d")
    case True
    from False True checkSide_new [OF False True] show ?thesis by (rule fresh)
  next
    case ex: False
    then obtain nc where nc: "cellAt st (extending d x y) = Some nc" "existEdges nc d" by blast
    from False nc checkSide_extend [OF False nc] show ?thesis by (rule reuse)
  qed
qed

lemma cellAt_modCell:
  "cellAt (modCell x y f st) p = (if p = (x, y) then map_option f (cellAt st (x, y)) else cellAt st p)"
  by (cases p) (auto simp: getCell_modCell)

lemma setSide_other:
  "d' \<noteq> d \<Longrightarrow> existEdges (setSide d B I c) d' = existEdges c d' \<and> edgeIds (setSide d B I c) d' = edgeIds c d'"
  by (simp add: setSide_def)

lemma setSide_same [simp]:
  "existEdges (setSide d B I c) d = B" "edgeIds (setSide d B I c) d = I"
  by (simp_all add: setSide_def)

text \<open>A processed side of a cell reads the same after a write to another side.\<close>

lemma keep_side:
  assumes "(p, d') \<in> Q" "((x, y), d) \<notin> Q" "cellAt st p = Some c"
    and "\<And>a b. getCell t a b = getCell st a b"
  shows "\<exists>c'. cellAt (modCell x y (setSide d B I) t) p = Some c' \<and>
    existEdges c' d' = existEdges c d' \<and> edgeIds c' d' = edgeIds c d'"
proof (cases "p = (x, y)")
  case True
  with assms(1,2) have "d' \<noteq> d" by auto
  with True assms(3,4) show ?thesis
    by (simp add: getCell_modCell setSide_other)
next
  case False
  with assms(3,4) show ?thesis
    by (simp add: cellAt_modCell)
qed

lemma runOK_keep:
  assumes r: "runOK occ Q st d' v i lo hi" and n: "((x, y), d) \<notin> Q"
    and g: "\<And>a b. getCell t a b = getCell st a b"
    and e: "getEdge (modCell x y (setSide d B I) t) i = getEdge st i"
  shows "runOK occ (insert ((x, y), d) Q) (modCell x y (setSide d B I) t) d' v i lo hi"
proof -
  let ?st' = "modCell x y (setSide d B I) t"
  have "\<exists>c. cellAt ?st' (mkPos d' u v) = Some c \<and> edgeIds c d' = i"
    if u: "lo \<le> u" "u < hi" for u
  proof -
    from r u obtain c where c: "(mkPos d' u v, d') \<in> Q" "cellAt st (mkPos d' u v) = Some c"
      "edgeIds c d' = i"
      unfolding runOK_def by blast
    from keep_side [OF c(1) n c(2) g, of B I] c(3) show ?thesis by auto
  qed
  with r e show ?thesis
    unfolding runOK_def by auto
qed

lemma sideOK_keep:
  assumes s: "sideOK occ Q st p d'" and pq: "(p, d') \<in> Q" and n: "((x, y), d) \<notin> Q"
    and g: "\<And>a b. getCell t a b = getCell st a b"
    and e: "\<And>c lo hi. cellAt st p = Some c \<Longrightarrow> boundary occ d' p \<Longrightarrow>
        runOK occ Q st d' (crossc d' p) (edgeIds c d') lo hi \<Longrightarrow>
        getEdge (modCell x y (setSide d B I) t) (edgeIds c d') = getEdge st (edgeIds c d')"
  shows "sideOK occ (insert ((x, y), d) Q) (modCell x y (setSide d B I) t) p d'"
proof -
  from s obtain c where c: "cellAt st p = Some c" "existEdges c d' = boundary occ d' p"
    and r: "if boundary occ d' p
         then \<exists>lo hi. runOK occ Q st d' (crossc d' p) (edgeIds c d') lo hi \<and>
                lo \<le> along d' p \<and> along d' p < hi
         else edgeIds c d' = 0"
    unfolding sideOK_def by blast
  from keep_side [OF pq n c(1) g, of B I] obtain c' where
    c': "cellAt (modCell x y (setSide d B I) t) p = Some c'"
      "existEdges c' d' = existEdges c d'" "edgeIds c' d' = edgeIds c d'" by blast
  show ?thesis
  proof (cases "boundary occ d' p")
    case True
    with r obtain lo hi where lh: "runOK occ Q st d' (crossc d' p) (edgeIds c d') lo hi"
      "lo \<le> along d' p" "along d' p < hi" by auto
    from runOK_keep [OF lh(1) n g e [OF c(1) True lh(1)]] True c c' lh(2,3) show ?thesis
      unfolding sideOK_def by auto
  next
    case False
    with r c c' show ?thesis
      unfolding sideOK_def by auto
  qed
qed

lemma getEdge_fields [simp]:
  "getEdge (st\<lparr>edgeId := k\<rparr>) i = getEdge st i"
  by (simp add: getEdge_def)

lemma getEdge_update_both [simp]:
  "getEdge (st\<lparr>edgeId := k, edges := AList.update i e (edges st)\<rparr>) j =
     (if j = i then Some e else getEdge st j)"
  by (simp add: getEdge_def update_conv')

lemma sideOK_boundaryI:
  assumes "cellAt st p = Some c" "existEdges c d" "boundary occ d p"
    "runOK occ Q st d (crossc d p) (edgeIds c d) lo hi" "lo \<le> along d p" "along d p < hi"
  shows "sideOK occ Q st p d"
  using assms unfolding sideOK_def by auto

lemma sideOK_plainI:
  assumes "cellAt st p = Some c" "\<not> existEdges c d" "\<not> boundary occ d p" "edgeIds c d = 0"
  shows "sideOK occ Q st p d"
  using assms unfolding sideOK_def by auto

lemma lineEdge_shaped:
  "lo < hi \<Longrightarrow> \<exists>d' v' lo' hi'. lo' < hi' \<and> lineEdge d v lo hi = lineEdge d' v' lo' hi'"
  by blast

lemma scanInv_step:
  assumes inv: "scanInv occ Q st"
    and g: "\<And>a b. getCell t a b = getCell st a b"
    and q: "inExtent (x, y)"
    and E1: "distinct (map fst (edges t))" "0 < edgeId t"
    and E2: "\<And>i e. getEdge t i = Some e \<Longrightarrow>
        0 < i \<and> i < edgeId t \<and> (\<exists>d v lo hi. lo < hi \<and> e = lineEdge d v lo hi)"
    and old: "\<And>p d'. (p, d') \<in> Q \<Longrightarrow>
        sideOK occ (insert ((x, y), d) Q) (modCell x y (setSide d B I) t) p d'"
    and new: "occ (x, y) \<and> sideOK occ (insert ((x, y), d) Q) (modCell x y (setSide d B I) t) (x, y) d"
  shows "scanInv occ (insert ((x, y), d) Q) (modCell x y (setSide d B I) t)"
proof -
  let ?st' = "modCell x y (setSide d B I) t"
  from inv have h: "\<And>a b. hasCell st a b = occ (a, b)"
    and out: "\<And>a b c d. getCell st a b = Some c \<Longrightarrow> \<not> inExtent (a, b) \<Longrightarrow> \<not> existEdges c d"
    and Qp: "\<And>p d. (p, d) \<in> Q \<Longrightarrow> inExtent p \<and> occ p"
    unfolding scanInv_def by blast+
  have "hasCell t a b = hasCell st a b" for a b
    unfolding hasCell_getCell g ..
  then have 1: "hasCell ?st' a b = occ (a, b)" for a b
    using h [of a b] by simp
  have 2: "distinct (map fst (edges ?st'))" "0 < edgeId ?st'"
    using E1 by simp_all
  have 3: "0 < i \<and> i < edgeId ?st' \<and> (\<exists>d v lo hi. lo < hi \<and> e = lineEdge d v lo hi)"
    if "getEdge ?st' i = Some e" for i e
    using E2 [of i e] that by simp
  have 4: "\<not> existEdges c d'" if "getCell ?st' a b = Some c" "\<not> inExtent (a, b)" for a b c d'
  proof -
    from that(2) q have "(a, b) \<noteq> (x, y)" by auto
    with that(1) have "getCell st a b = Some c"
      by (auto simp: getCell_modCell g split: if_splits)
    from out [OF this that(2)] show ?thesis .
  qed
  have 5: "inExtent p \<and> occ p \<and> sideOK occ (insert ((x, y), d) Q) ?st' p d'"
    if "(p, d') \<in> insert ((x, y), d) Q" for p d'
    using that old [of p d'] new q Qp [of p d'] by auto
  show ?thesis
    unfolding scanInv_def using 1 2 3 4 5 by blast
qed

lemma scanInv_boundary_flag:
  assumes inv: "scanInv occ Q st" and n: "(p, d) \<in> Q" and c: "cellAt st p = Some c"
  shows "existEdges c d = boundary occ d p"
proof -
  from inv n have "sideOK occ Q st p d" unfolding scanInv_def by blast
  with c show ?thesis unfolding sideOK_def by auto
qed

lemma scanInv_run:
  assumes inv: "scanInv occ Q st" and n: "(p, d) \<in> Q" and c: "cellAt st p = Some c"
    and b: "boundary occ d p"
  obtains lo hi where "runOK occ Q st d (crossc d p) (edgeIds c d) lo hi"
    "lo \<le> along d p" "along d p < hi"
proof -
  from inv n have "sideOK occ Q st p d" unfolding scanInv_def by blast
  with c b that show ?thesis unfolding sideOK_def by auto
qed

lemma checkSide_scanInv:
  assumes inv: "scanInv occ Q st" and q: "inExtent (x, y)" "occ (x, y)" and n: "((x, y), d) \<notin> Q"
    and pre: "inExtent (extending d x y) \<and> occ (extending d x y) \<longrightarrow> (extending d x y, d) \<in> Q"
  shows "\<exists>st'. checkSide d x y st = Some st' \<and> scanInv occ (insert ((x, y), d) Q) st'"
proof -
  let ?n = "extending d x y"
  let ?u = "along d (x, y)" and ?v = "crossc d (x, y)"
  let ?Q' = "insert ((x, y), d) Q"
  from inv have h: "\<And>a b. hasCell st a b = occ (a, b)"
    and dist: "distinct (map fst (edges st))" "0 < edgeId st"
    and ed: "\<And>i e. getEdge st i = Some e \<Longrightarrow>
        0 < i \<and> i < edgeId st \<and> (\<exists>d v lo hi. lo < hi \<and> e = lineEdge d v lo hi)"
    and out: "\<And>a b c d. getCell st a b = Some c \<Longrightarrow> \<not> inExtent (a, b) \<Longrightarrow> \<not> existEdges c d"
    and Qs: "\<And>p d. (p, d) \<in> Q \<Longrightarrow> sideOK occ Q st p d"
    unfolding scanInv_def by blast+
  from q(2) h [of x y] obtain c0 where c0: "getCell st x y = Some c0"
    by (auto simp: hasCell_getCell)
  have bq: "boundary occ d (x, y) \<longleftrightarrow> \<not> hasCell st (fst (across d x y)) (snd (across d x y))"
    using q by (simp add: boundary_def h)
  have nq: "?n = mkPos d (?u - 1) ?v"
    by (rule extending_mkPos)
  have qpos: "mkPos d ?u ?v = (x, y)"
    by simp
  show ?thesis
  proof (cases rule: checkSide_cases [of st d x y])
    case blocked
    let ?st' = "modCell x y (setSide d False 0) st"
    have "scanInv occ ?Q' ?st'"
    proof (rule scanInv_step [OF inv _ q(1)])
      show "sideOK occ ?Q' ?st' p d'" if "(p, d') \<in> Q" for p d'
        by (rule sideOK_keep [OF Qs [OF that] that n]) simp_all
      have "sideOK occ ?Q' ?st' (x, y) d"
        by (rule sideOK_plainI [where c = "setSide d False 0 c0"])
          (use blocked(1) bq c0 in \<open>simp_all add: getCell_modCell\<close>)
      with q(2) show "occ (x, y) \<and> sideOK occ ?Q' ?st' (x, y) d" ..
    qed (use dist ed in auto)
    with blocked(2) show ?thesis by simp
  next
    case fresh
    let ?k = "edgeId st"
    let ?t = "st\<lparr>edgeId := ?k + 1, edges := AList.update ?k (unitEdge d x y) (edges st)\<rparr>"
    let ?st' = "modCell x y (setSide d True ?k) ?t"
    have ge: "getEdge ?t i = (if i = ?k then Some (unitEdge d x y) else getEdge st i)" for i
      by (simp add: update_conv' getEdge_def)
    have nb: "\<not> boundary occ d ?n"
    proof
      assume b: "boundary occ d ?n"
      then have "inExtent ?n" "occ ?n" by (simp_all add: boundary_def)
      with pre have m: "(?n, d) \<in> Q" by simp
      from \<open>occ ?n\<close> h [of "fst ?n" "snd ?n"] obtain nc where nc: "cellAt st ?n = Some nc"
        by (auto simp: hasCell_getCell)
      from scanInv_boundary_flag [OF inv m nc] b fresh(2) nc show False by simp
    qed
    have "scanInv occ ?Q' ?st'"
    proof (rule scanInv_step [OF inv _ q(1)])
      show "getCell ?t a b = getCell st a b" for a b by simp
      show "distinct (map fst (edges ?t))" "0 < edgeId ?t"
        using dist by (simp_all add: distinct_update)
      show "0 < i \<and> i < edgeId ?t \<and> (\<exists>d v lo hi. lo < hi \<and> e = lineEdge d v lo hi)"
        if "getEdge ?t i = Some e" for i e
      proof (cases "i = ?k")
        case True
        with that [unfolded ge] have "e = lineEdge d ?v ?u (?u + 1)"
          by (simp add: unitEdge_lineEdge)
        moreover have "\<exists>d' v' lo' hi'. lo' < hi' \<and>
            lineEdge d ?v ?u (?u + 1) = lineEdge d' v' lo' hi'"
          by (rule lineEdge_shaped) simp
        ultimately show ?thesis using True dist(2) by simp
      next
        case False
        with that [unfolded ge] ed [of i e] show ?thesis by auto
      qed
      show "sideOK occ ?Q' ?st' p d'" if "(p, d') \<in> Q" for p d'
      proof (rule sideOK_keep [OF Qs [OF that] that n])
        show "getCell ?t a b = getCell st a b" for a b by simp
        show "getEdge ?st' (edgeIds c d') = getEdge st (edgeIds c d')"
          if "runOK occ Q st d' (crossc d' p) (edgeIds c d') lo hi" for c lo hi
        proof -
          from that obtain e where "getEdge st (edgeIds c d') = Some e" unfolding runOK_def by simp
          from ed [OF this] have "edgeIds c d' \<noteq> ?k" by simp
          then show ?thesis by simp
        qed
      qed
      have "runOK occ ?Q' ?st' d ?v ?k ?u (?u + 1)"
        unfolding runOK_def using fresh(1) bq nb c0
        by (auto simp: ge unitEdge_lineEdge nq getCell_modCell dest: zle_add1_eq_le [THEN iffD1])
      then have "sideOK occ ?Q' ?st' (x, y) d"
        by (intro sideOK_boundaryI [where c = "setSide d True ?k c0" and lo = ?u and hi = "?u + 1"])
          (use fresh(1) bq c0 in \<open>simp_all add: getCell_modCell\<close>)
      with q(2) show "occ (x, y) \<and> sideOK occ ?Q' ?st' (x, y) d" ..
    qed
    with fresh(3) show ?thesis by simp
  next
    case (reuse nc)
    let ?i = "edgeIds nc d"
    have nin: "inExtent ?n"
      using out [OF reuse(2)] reuse(3) by auto
    have nocc: "occ ?n"
      using reuse(2) h [of "fst ?n" "snd ?n"] by (simp add: hasCell_getCell)
    from pre nin nocc have m: "(?n, d) \<in> Q" by simp
    from scanInv_boundary_flag [OF inv m reuse(2)] reuse(3) have bn: "boundary occ d ?n" by simp
    from scanInv_run [OF inv m reuse(2) bn] obtain lo hi where
      r: "runOK occ Q st d (crossc d ?n) ?i lo hi" and lh: "lo \<le> along d ?n" "along d ?n < hi"
      by blast
    have cn: "crossc d ?n = ?v" "along d ?n = ?u - 1"
      by (simp_all add: nq)
    have "\<not> (lo \<le> ?u \<and> ?u < hi)"
    proof
      assume "lo \<le> ?u \<and> ?u < hi"
      with r have "(mkPos d ?u ?v, d) \<in> Q" unfolding runOK_def cn by blast
      with n show False by simp
    qed
    with lh have hi: "hi = ?u" unfolding cn by simp
    from r have e: "getEdge st ?i = Some (lineEdge d ?v lo ?u)"
      unfolding runOK_def cn hi by simp
    let ?t = "st\<lparr>edges := AList.update ?i (lineEdge d ?v lo (?u + 1)) (edges st)\<rparr>"
    let ?st' = "modCell x y (setSide d True ?i) ?t"
    have cs: "checkSide d x y st = Some ?st'"
      unfolding reuse(4) e by (simp add: growEdge_lineEdge)
    have ge: "getEdge ?t i = (if i = ?i then Some (lineEdge d ?v lo (?u + 1)) else getEdge st i)" for i
      by (simp add: update_conv' getEdge_def)
    have lo: "lo < ?u + 1" using lh unfolding cn by simp
    have nr: "runOK occ ?Q' ?st' d ?v ?i lo (?u + 1)"
    proof -
      have "(mkPos d u ?v, d) \<in> ?Q' \<and> boundary occ d (mkPos d u ?v) \<and>
          (\<exists>c. cellAt ?st' (mkPos d u ?v) = Some c \<and> edgeIds c d = ?i)"
        if u: "lo \<le> u" "u < ?u + 1" for u
      proof (cases "u = ?u")
        case True
        with reuse(1) bq c0 show ?thesis
          by (simp add: getCell_modCell)
      next
        case False
        with u have "u < ?u" by simp
        with r u(1) obtain c where c: "(mkPos d u ?v, d) \<in> Q" "boundary occ d (mkPos d u ?v)"
          "cellAt st (mkPos d u ?v) = Some c" "edgeIds c d = ?i"
          unfolding runOK_def cn hi by blast
        from keep_side [OF c(1) n c(3), of ?t True ?i] c show ?thesis by auto
      qed
      moreover have "\<not> boundary occ d (mkPos d (lo - 1) ?v)"
        using r unfolding runOK_def cn by simp
      ultimately show ?thesis
        unfolding runOK_def using lo by (simp add: ge)
    qed
    have "scanInv occ ?Q' ?st'"
    proof (rule scanInv_step [OF inv _ q(1)])
      show "getCell ?t a b = getCell st a b" for a b by simp
      show "distinct (map fst (edges ?t))" "0 < edgeId ?t"
        using dist by (simp_all add: distinct_update)
      show "0 < i \<and> i < edgeId ?t \<and> (\<exists>d v lo hi. lo < hi \<and> e = lineEdge d v lo hi)"
        if "getEdge ?t i = Some e" for i e
      proof (cases "i = ?i")
        case True
        with that [unfolded ge] have "e = lineEdge d ?v lo (?u + 1)" by simp
        with lineEdge_shaped [OF lo, of d ?v] ed [OF e] True show ?thesis by simp
      next
        case False
        with that [unfolded ge] ed [of i e] show ?thesis by auto
      qed
      show "sideOK occ ?Q' ?st' p d'" if pd: "(p, d') \<in> Q" for p d'
      proof -
        from Qs [OF pd] obtain c where c: "cellAt st p = Some c"
          "existEdges c d' = boundary occ d' p"
          unfolding sideOK_def by blast
        show ?thesis
        proof (cases "boundary occ d' p \<and> edgeIds c d' = ?i")
          case True
          from scanInv_run [OF inv pd c(1)] True obtain lo' hi' where
            r': "runOK occ Q st d' (crossc d' p) ?i lo' hi'" "lo' \<le> along d' p" "along d' p < hi'"
            by metis
          from runOK_unique [OF r [unfolded cn hi] r'(1)]
          have same: "d' = d" "crossc d' p = ?v" "lo' = lo" "hi' = ?u" by blast+
          from keep_side [OF pd n c(1), of ?t True ?i] obtain c' where
            c': "cellAt ?st' p = Some c'" "existEdges c' d' = existEdges c d'"
              "edgeIds c' d' = edgeIds c d'" by auto
          have f: "existEdges c' d" "boundary occ d p" "edgeIds c' d = ?i"
            "crossc d p = ?v" "lo \<le> along d p" "along d p < ?u + 1"
            using True c c' r'(2,3) same by simp_all
          have "sideOK occ ?Q' ?st' p d"
            by (rule sideOK_boundaryI [where c = c' and lo = lo and hi = "?u + 1"])
              (use c'(1) f nr in simp_all)
          then show ?thesis by (simp only: same(1))
        next
          case False
          show ?thesis
          proof (rule sideOK_keep [OF Qs [OF pd] pd n])
            show "getCell ?t a b = getCell st a b" for a b by simp
            show "getEdge ?st' (edgeIds c2 d') = getEdge st (edgeIds c2 d')"
              if "cellAt st p = Some c2" "boundary occ d' p" for c2
            proof -
              from that(1) c(1) have "c2 = c" by simp
              with False that(2) have "edgeIds c2 d' \<noteq> ?i" by simp
              then show ?thesis by simp
            qed
          qed
        qed
      qed
      have "sideOK occ ?Q' ?st' (x, y) d"
        by (rule sideOK_boundaryI [where c = "setSide d True ?i c0" and lo = lo and hi = "?u + 1"])
          (use reuse(1) bq c0 nr lh cn in \<open>simp_all add: getCell_modCell\<close>)
      with q(2) show "occ (x, y) \<and> sideOK occ ?Q' ?st' (x, y) d" ..
    qed
    with cs show ?thesis by simp
  qed
qed

lemma computeCell_scanInv:
  assumes inv: "scanInv occ (scanned occ x y {}) st" and i: "inExtent (x, y)"
  shows "\<exists>st'. computeCell x y st = Some st' \<and> scanInv occ (scanned occ x (y + 1) {}) st'"
proof (cases "occ (x, y)")
  case False
  with inv have "\<not> hasCell st x y" unfolding scanInv_def by simp
  then have "getCell st x y = None" unfolding hasCell_getCell by simp
  with inv False show ?thesis
    by (simp add: computeCell_def scanned_skip)
next
  case True
  with inv have "hasCell st x y" unfolding scanInv_def by simp
  then obtain c where c: "getCell st x y = Some c" unfolding hasCell_getCell by blast
  have step: "\<exists>t'. checkSide d x y t = Some t' \<and> scanInv occ (scanned occ x y (insert d ds)) t'"
    if "scanInv occ (scanned occ x y ds) t" "d \<notin> ds" for d ds t
  proof -
    have "((x, y), d) \<notin> scanned occ x y ds"
      using that(2) by (simp add: scanned_def)
    from checkSide_scanInv [OF that(1) i True this] extending_scanned [of d x y occ ds]
    show ?thesis by (simp add: scanned_insert [of x y occ, OF i True])
  qed
  from step [OF inv, of NORTH] obtain t1 where
    t1: "checkSide NORTH x y st = Some t1" "scanInv occ (scanned occ x y {NORTH}) t1" by auto
  from step [OF t1(2), of EAST] obtain t2 where
    t2: "checkSide EAST x y t1 = Some t2" "scanInv occ (scanned occ x y {EAST, NORTH}) t2" by auto
  from step [OF t2(2), of SOUTH] obtain t3 where
    t3: "checkSide SOUTH x y t2 = Some t3" "scanInv occ (scanned occ x y {SOUTH, EAST, NORTH}) t3"
    by auto
  from step [OF t3(2), of WEST] obtain t4 where
    t4: "checkSide WEST x y t3 = Some t4"
      "scanInv occ (scanned occ x y {WEST, SOUTH, EAST, NORTH}) t4"
    by auto
  have "{WEST, SOUTH, EAST, NORTH} = (UNIV :: side set)"
    unfolding side_UNIV by auto
  with t4(2) have "scanInv occ (scanned occ x (y + 1) {}) t4"
    by (simp add: scanned_next)
  moreover have "computeCell x y st = Some t4"
    by (simp add: computeCell_def c t1(1) t2(1) t3(1) t4(1))
  ultimately show ?thesis by simp
qed

lemma scanned_all:
  "scanned occ TILE_X_COUNT 0 {} = {(p, d). inExtent p \<and> occ p}"
  by (auto simp: scanned_def inExtent_def)

lemma scanInv_init:
  assumes "gridOK st"
  shows "scanInv (\<lambda>p. hasCell st (fst p) (snd p)) {} (clearEdges st)"
  using assms unfolding scanInv_def gridOK_def
  by (simp add: getEdge_def) (simp add: clearEdges_def)

lemma computeEdges_scanInv:
  assumes "gridOK st"
  shows "\<exists>st'. computeEdges st = Some st' \<and>
    scanInv (\<lambda>p. hasCell st (fst p) (snd p))
      {(p, d). inExtent p \<and> hasCell st (fst p) (snd p)} st'"
proof -
  let ?occ = "\<lambda>p. hasCell st (fst p) (snd p)"
  have row: "\<exists>t'. forEach (\<lambda>y. computeCell x y) [0..TILE_Y_COUNT - 1] t = Some t' \<and>
      scanInv ?occ (scanned ?occ (x + 1) 0 {}) t'"
    if x: "0 \<le> x" "x \<le> TILE_X_COUNT - 1" and v: "scanInv ?occ (scanned ?occ x 0 {}) t" for x t
  proof -
    have "\<exists>t'. forEach (\<lambda>y. computeCell x y) [0..TILE_Y_COUNT - 1] t = Some t' \<and>
      scanInv ?occ (scanned ?occ x (TILE_Y_COUNT - 1 + 1) {}) t'"
    proof (rule forEach_upto_inv [where P = "\<lambda>y. scanInv ?occ (scanned ?occ x y {})"])
      show "0 \<le> TILE_Y_COUNT - 1 + 1" by (simp add: TILE_Y_COUNT_def)
      show "scanInv ?occ (scanned ?occ x 0 {}) t" by (rule v)
      show "\<exists>s'. computeCell x y s = Some s' \<and> scanInv ?occ (scanned ?occ x (y + 1) {}) s'"
        if "0 \<le> y" "y \<le> TILE_Y_COUNT - 1" "scanInv ?occ (scanned ?occ x y {}) s" for y s
      proof (rule computeCell_scanInv [OF that(3)])
        show "inExtent (x, y)" using x that(1,2) by (simp add: inExtent_def)
      qed
    qed
    then show ?thesis by (simp add: scanned_column)
  qed
  have "\<exists>st'. forEach (\<lambda>x. forEach (\<lambda>y. computeCell x y) [0..TILE_Y_COUNT - 1])
        [0..TILE_X_COUNT - 1] (clearEdges st) = Some st' \<and>
      scanInv ?occ (scanned ?occ (TILE_X_COUNT - 1 + 1) 0 {}) st'"
  proof (rule forEach_upto_inv [where P = "\<lambda>x. scanInv ?occ (scanned ?occ x 0 {})"])
    show "0 \<le> TILE_X_COUNT - 1 + 1" by (simp add: TILE_X_COUNT_def)
    show "scanInv ?occ (scanned ?occ 0 0 {}) (clearEdges st)"
      using scanInv_init [OF assms] by (simp add: scanned_none)
  qed (rule row)
  then show ?thesis
    by (simp add: computeEdges_def scanned_all)
qed

subsection \<open>Grids the program can reach\<close>

lemma gridOK_emptyState: "gridOK emptyState"
  by (simp add: gridOK_def emptyState_def getCell_def)

lemma getCell_setCell:
  "getCell (setCell x y v st) a b =
     (if a = x \<and> b = y then (if v then Some (createCell x y) else None) else getCell st a b)"
  by (cases "cells st x") (simp_all add: setCell_def getCell_def Let_def)

lemma hasCell_setCell:
  "hasCell (setCell x y v st) a b = (if a = x \<and> b = y then v else hasCell st a b)"
  by (simp add: hasCell_getCell getCell_setCell)

lemma gridOK_setCell: "gridOK st \<Longrightarrow> gridOK (setCell x y v st)"
  unfolding gridOK_def
  by (auto simp: getCell_setCell createCell_def split: if_splits)

lemma gridOK_computeEdges: "gridOK st \<Longrightarrow> computeEdges st = Some st' \<Longrightarrow> gridOK st'"
  using computeEdges_frame(2) [of st st'] unfolding gridOK_def by metis

lemma gridOK_getRaysToEdges: "gridOK st \<Longrightarrow> gridOK (getRaysToEdges st)"
  unfolding gridOK_def
  by (simp add: getRaysToEdges_def getCell_def Let_def split: option.splits prod.splits)

lemma gridOK_lightSource: "gridOK st \<Longrightarrow> gridOK (st\<lparr>lightSource := l\<rparr>)"
  unfolding gridOK_def by (simp add: getCell_def)

lemma reachable_gridOK: "reachable st \<Longrightarrow> gridOK st"
  by (induction rule: reachable.induct)
    (simp_all add: gridOK_emptyState gridOK_setCell gridOK_computeEdges gridOK_lightSource
      gridOK_getRaysToEdges)


lemma computeEdges_total:
  assumes "gridOK st"
  shows "\<exists>st'. computeEdges st = Some st'"
proof -
  from computeEdges_scanInv [OF assms] obtain st' where "computeEdges st = Some st'"
    by (elim exE conjE)
  then show ?thesis ..
qed

lemma hasCell_emptyState [simp]: "hasCell emptyState a b = False"
  by (simp add: hasCell_def emptyState_def)

section \<open>Boundary flags\<close>

text \<open>
  A cell at \<open>(20, 0)\<close> lies outside the scanned rectangle: after recompute it is occupied, its
  north neighbour is absent, and its north side is not flagged.
\<close>

theorem boundary_flags_counterexample:
  "computeEdges (setCell 20 0 True emptyState) \<noteq> None \<and>
   getCell (the (computeEdges (setCell 20 0 True emptyState))) 20 0 \<noteq> None \<and>
   existEdges (the (getCell (the (computeEdges (setCell 20 0 True emptyState))) 20 0)) NORTH = False \<and>
   hasCell (the (computeEdges (setCell 20 0 True emptyState))) 20 (- 1) = False"
  by code_simp

text \<open>
  Claim C1, amended. On a grid the program can have, recompute succeeds, and afterwards for
  every occupied cell inside the scanned 20 x 20 rectangle each side is flagged exactly when the
  cell across that side is absent, and an unflagged side has edge id 0; an occupied cell
  outside the rectangle is not visited and keeps all four sides unflagged.
\<close>

theorem boundary_flags_in_extent:
  assumes "gridOK st"
  shows "\<exists>st'. computeEdges st = Some st' \<and>
    (\<forall>x y c d. getCell st' x y = Some c \<longrightarrow>
       (inExtent (x, y) \<longrightarrow>
          (existEdges c d \<longleftrightarrow> \<not> hasCell st' (fst (across d x y)) (snd (across d x y))) \<and>
          (\<not> existEdges c d \<longrightarrow> edgeIds c d = 0)) \<and>
       (\<not> inExtent (x, y) \<longrightarrow> \<not> existEdges c d))"
proof -
  let ?occ = "\<lambda>p. hasCell st (fst p) (snd p)"
  let ?Q = "{(p, d). inExtent p \<and> hasCell st (fst p) (snd p)}"
  from computeEdges_scanInv [OF assms] obtain st' where
    st': "computeEdges st = Some st'" and inv: "scanInv ?occ ?Q st'" by (elim exE conjE)
  from inv have h: "\<And>a b. hasCell st' a b = hasCell st a b"
    and out: "\<And>a b c d. getCell st' a b = Some c \<Longrightarrow> \<not> inExtent (a, b) \<Longrightarrow> \<not> existEdges c d"
    and ok: "\<And>p d. (p, d) \<in> ?Q \<Longrightarrow> sideOK ?occ ?Q st' p d"
    unfolding scanInv_def by auto
  have "(existEdges c d \<longleftrightarrow> \<not> hasCell st' (fst (across d x y)) (snd (across d x y))) \<and>
      (\<not> existEdges c d \<longrightarrow> edgeIds c d = 0)"
    if c: "getCell st' x y = Some c" and i: "inExtent (x, y)" for x y c d
  proof -
    from c have o: "hasCell st x y" using h [of x y] by (simp add: hasCell_getCell)
    with i have "((x, y), d) \<in> ?Q" by simp
    from ok [OF this] c have "existEdges c d = boundary ?occ d (x, y)"
      and "\<not> boundary ?occ d (x, y) \<longrightarrow> edgeIds c d = 0"
      unfolding sideOK_def by (auto split: if_splits)
    moreover have "boundary ?occ d (x, y) \<longleftrightarrow> \<not> hasCell st' (fst (across d x y)) (snd (across d x y))"
      using i o by (simp add: boundary_def h)
    ultimately show ?thesis by simp
  qed
  with st' out show ?thesis by blast
qed

theorem boundary_flags_in_extent_witness:
  "gridOK (setCell 3 3 True (setCell 2 3 True emptyState)) \<and> inExtent (2, 3) \<and>
   computeEdges (setCell 3 3 True (setCell 2 3 True emptyState)) \<noteq> None \<and>
   getCell (the (computeEdges (setCell 3 3 True (setCell 2 3 True emptyState)))) 2 3 \<noteq> None \<and>
   existEdges (the (getCell (the (computeEdges (setCell 3 3 True (setCell 2 3 True emptyState)))) 2 3)) NORTH \<and>
   \<not> existEdges (the (getCell (the (computeEdges (setCell 3 3 True (setCell 2 3 True emptyState)))) 2 3)) EAST \<and>
   edgeIds (the (getCell (the (computeEdges (setCell 3 3 True (setCell 2 3 True emptyState)))) 2 3)) EAST = 0"
proof -
  let ?G = "setCell 3 3 True (setCell 2 3 True emptyState)"
  have ok: "gridOK ?G"
    by (intro gridOK_setCell gridOK_emptyState)
  have i: "inExtent (2, 3)"
    by (simp add: inExtent_def TILE_X_COUNT_def TILE_Y_COUNT_def)
  from boundary_flags_in_extent [OF ok] obtain st' where
    s: "computeEdges ?G = Some st'"
    and a: "\<And>x y c d. getCell st' x y = Some c \<Longrightarrow> inExtent (x, y) \<Longrightarrow>
          (existEdges c d \<longleftrightarrow> \<not> hasCell st' (fst (across d x y)) (snd (across d x y))) \<and>
          (\<not> existEdges c d \<longrightarrow> edgeIds c d = 0)"
    by blast
  have h: "hasCell st' x y = hasCell ?G x y" for x y
    by (rule computeEdges_frame(1) [OF s])
  have "hasCell st' 2 3" by (simp add: h hasCell_setCell)
  then obtain c where c: "getCell st' 2 3 = Some c"
    unfolding hasCell_getCell by blast
  from a [OF c i, of NORTH] a [OF c i, of EAST]
  have "existEdges c NORTH" "\<not> existEdges c EAST" "edgeIds c EAST = 0"
    by (simp_all add: h hasCell_setCell)
  with ok i s c show ?thesis by simp
qed

section \<open>Shape of the edges\<close>

text \<open>
  Claim C10. On a grid the program can have, recompute succeeds and every edge of the edge
  set is horizontal with \<open>sy = ey\<close> and \<open>sx < ex\<close>, or vertical with \<open>sx = ex\<close> and \<open>sy < ey\<close>;
  the coordinates are integers and the length is at least 1.
\<close>

theorem edges_axis_aligned:
  assumes "gridOK st"
  shows "\<exists>st'. computeEdges st = Some st' \<and>
    (\<forall>e\<in>set (getAllEdges st').
       (edge.sy e = edge.ey e \<and> edge.sx e < edge.ex e \<and> 1 \<le> edge.ex e - edge.sx e) \<or>
       (edge.sx e = edge.ex e \<and> edge.sy e < edge.ey e \<and> 1 \<le> edge.ey e - edge.sy e))"
proof -
  let ?occ = "\<lambda>p. hasCell st (fst p) (snd p)"
  let ?Q = "{(p, d). inExtent p \<and> hasCell st (fst p) (snd p)}"
  from computeEdges_scanInv [OF assms] obtain st' where
    st': "computeEdges st = Some st'" and inv: "scanInv ?occ ?Q st'" by (elim exE conjE)
  from inv have dist: "distinct (map fst (edges st'))"
    and sh: "\<And>i e. getEdge st' i = Some e \<Longrightarrow> \<exists>d v lo hi. lo < hi \<and> e = lineEdge d v lo hi"
    unfolding scanInv_def by blast+
  have "(edge.sy e = edge.ey e \<and> edge.sx e < edge.ex e \<and> 1 \<le> edge.ex e - edge.sx e) \<or>
       (edge.sx e = edge.ex e \<and> edge.sy e < edge.ey e \<and> 1 \<le> edge.ey e - edge.sy e)"
    if "e \<in> set (getAllEdges st')" for e
  proof -
    from that obtain i where "(i, e) \<in> set (edges st')"
      by (auto simp: getAllEdges_def)
    with dist have "getEdge st' i = Some e"
      by (simp add: getEdge_def)
    from sh [OF this] obtain d v lo hi where "lo < hi" "e = lineEdge d v lo hi" by blast
    then show ?thesis by (cases d) simp_all
  qed
  with st' show ?thesis by blast
qed

theorem edges_axis_aligned_witness:
  "gridOK (setCell 2 3 True emptyState) \<and>
   \<lparr>edge.sx = 2, sy = 3, ex = 3, ey = 3\<rparr>
     \<in> set (getAllEdges (the (computeEdges (setCell 2 3 True emptyState)))) \<and>
   edge.sy \<lparr>edge.sx = 2, sy = 3, ex = 3, ey = 3\<rparr> = edge.ey \<lparr>edge.sx = 2, sy = 3, ex = 3, ey = 3\<rparr> \<and>
   edge.sx \<lparr>edge.sx = 2, sy = 3, ex = 3, ey = 3\<rparr> < edge.ex \<lparr>edge.sx = 2, sy = 3, ex = 3, ey = 3\<rparr>"
proof -
  let ?G = "setCell 2 3 True emptyState"
  have ok: "gridOK ?G"
    by (intro gridOK_setCell gridOK_emptyState)
  have "map_option getAllEdges (computeEdges ?G) =
      Some [\<lparr>edge.sx = 2, sy = 3, ex = 3, ey = 3\<rparr>, \<lparr>edge.sx = 3, sy = 3, ex = 3, ey = 4\<rparr>,
            \<lparr>edge.sx = 2, sy = 4, ex = 3, ey = 4\<rparr>, \<lparr>edge.sx = 2, sy = 3, ex = 2, ey = 4\<rparr>]"
    by code_simp
  then have m: "\<lparr>edge.sx = 2, sy = 3, ex = 3, ey = 3\<rparr> \<in> set (getAllEdges (the (computeEdges ?G)))"
    by auto
  from edges_axis_aligned [OF ok] obtain st' where
    "computeEdges ?G = Some st'"
    "\<forall>e\<in>set (getAllEdges st').
       (edge.sy e = edge.ey e \<and> edge.sx e < edge.ex e \<and> 1 \<le> edge.ex e - edge.sx e) \<or>
       (edge.sx e = edge.ex e \<and> edge.sy e < edge.ey e \<and> 1 \<le> edge.ey e - edge.sy e)"
    by (elim exE conjE)
  with m have "edge.sy \<lparr>edge.sx = 2, sy = 3, ex = 3, ey = 3\<rparr> = edge.ey \<lparr>edge.sx = 2, sy = 3, ex = 3, ey = 3\<rparr> \<and>
      edge.sx \<lparr>edge.sx = 2, sy = 3, ex = 3, ey = 3\<rparr> < edge.ex \<lparr>edge.sx = 2, sy = 3, ex = 3, ey = 3\<rparr>"
    by fastforce
  with ok m show ?thesis by (intro conjI) simp_all
qed

section \<open>Recomputing twice\<close>

text \<open>
  Claim C9. Recompute succeeds on every grid the program can have, and whenever a recompute
  of any state succeeds, a second recompute right after it succeeds too and yields the same
  list of edges: same number, same endpoints.
\<close>

theorem computeEdges_twice:
  "(gridOK st \<longrightarrow> computeEdges st \<noteq> None) \<and>
   (\<forall>st1. computeEdges st = Some st1 \<longrightarrow>
      (\<exists>st2. computeEdges st1 = Some st2 \<and> getAllEdges st2 = getAllEdges st1 \<and>
         length (getAllEdges st2) = length (getAllEdges st1)))"
proof (intro conjI impI allI)
  assume "gridOK st"
  from computeEdges_total [OF this] show "computeEdges st \<noteq> None" by (elim exE) simp
next
  fix st1 assume "computeEdges st = Some st1"
  from computeEdges_again [OF this]
  show "\<exists>st2. computeEdges st1 = Some st2 \<and> getAllEdges st2 = getAllEdges st1 \<and>
         length (getAllEdges st2) = length (getAllEdges st1)"
    by (auto simp: getAllEdges_def)
qed

theorem computeEdges_twice_witness:
  "gridOK (setCell 2 3 True emptyState) \<and>
   computeEdges (setCell 2 3 True emptyState) \<noteq> None \<and>
   (\<exists>st2. computeEdges (the (computeEdges (setCell 2 3 True emptyState))) = Some st2 \<and>
      getAllEdges st2 = getAllEdges (the (computeEdges (setCell 2 3 True emptyState))))"
proof -
  let ?G = "setCell 2 3 True emptyState"
  have ok: "gridOK ?G"
    by (intro gridOK_setCell gridOK_emptyState)
  from computeEdges_twice [of ?G] ok obtain st1 where s: "computeEdges ?G = Some st1"
    by auto
  from computeEdges_twice [of ?G] s obtain st2 where
    "computeEdges st1 = Some st2" "getAllEdges st2 = getAllEdges st1" by blast
  with ok s show ?thesis by simp
qed

section \<open>Merging of collinear sides\<close>




end
